theory Spec2Isabelle
  imports Complex_Main "HOL-Library.AList" "HOL-Library.Word"
begin

section \<open>Data model (main.go, DATA MODELS and GLOBAL STATE)\<close>

text \<open>
  A \<^verbatim>\<open>float64\<close> is modelled by the real number it denotes. Every arithmetic operation of
  the source is written as the exact operation followed by a rounding function \<open>fl\<close>, which
  is a parameter of the functions below. The arithmetic of the program is \<open>fl = float64\<close>,
  defined in the next section: rounding to the nearest double, ties to even. NaN and the
  infinities are not values of the model, so \<open>float64\<close> is the program's arithmetic as long
  as nothing overflows; fused operations are not modelled either.
\<close>

record Crypto =
  Symbol :: string
  Name :: string
  Price :: real
  Change24h :: real
  Volume :: real
  High24h :: real
  Low24h :: real

text \<open>The fields of \<^verbatim>\<open>Trade\<close> and \<^verbatim>\<open>Alert\<close> carry a prefix, since \<^verbatim>\<open>Symbol\<close> and
  \<^verbatim>\<open>Price\<close> are fields of \<^verbatim>\<open>Crypto\<close> already.\<close>

record Trade =
  Trade_ID :: string
  Trade_Symbol :: string
  Trade_Type :: string
  Trade_Price :: real
  Trade_Amount :: real
  Trade_Total :: real
  Trade_Timestamp :: string

record Alert =
  Alert_ID :: string
  Alert_Type :: string
  Alert_Title :: string
  Alert_Message :: string
  Alert_Timestamp :: string

text \<open>\<^verbatim>\<open>Data interface{}\<close>: the values the source stores there, and \<^verbatim>\<open>nil\<close>.\<close>

datatype payload =
    NilData
  | CryptoListData "Crypto list"
  | TradeData Trade
  | AlertData Alert
  | StatsData "64 word" real "64 word" string
  | InitData "Crypto list" string

record SSEMessage =
  Event :: string
  Data :: payload

text \<open>
  A buffered channel: the queued messages (oldest first), the capacity given to
  \<^verbatim>\<open>make\<close>, and whether \<^verbatim>\<open>close\<close> has been called. Channels live in a store, a list
  indexed by the channel's identity; \<^verbatim>\<open>make\<close> appends to it. An identity that \<^verbatim>\<open>make\<close>
  has not returned denotes no channel and is treated as Go treats a nil channel.
\<close>

record channel =
  buf :: "SSEMessage list"
  cap :: nat
  closed :: bool

type_synonym chan_id = nat

text \<open>
  The package-level variables. The maps are association lists, whose order stands for the
  order in which a \<^verbatim>\<open>range\<close> over the map happens to visit the keys. \<^verbatim>\<open>totalTrades\<close> is an
  \<^verbatim>\<open>int64\<close> and \<^verbatim>\<open>activeTraders\<close> an \<^verbatim>\<open>int\<close>, 64 bits wide on the platforms the program is
  built for; both wrap around.
\<close>

record state =
  cryptos :: "(string \<times> Crypto) list"
  chans :: "channel list"
  clients :: "(chan_id \<times> bool) list"
  totalTrades :: "64 word"
  totalVolume :: real
  activeTraders :: "64 word"

datatype error =
    SendOnClosedChannel
  | CloseOfClosedChannel
  | CloseOfNilChannel
  | NilPointerDereference
  | IndexOutOfRange

definition initial_cryptos :: "(string \<times> Crypto) list" where
  "initial_cryptos =
    [(''BTC'', \<lparr>Symbol = ''BTC'', Name = ''Bitcoin'', Price = 43250, Change24h = 25 / 10,
        Volume = 28500000000, High24h = 44100, Low24h = 42800\<rparr>),
     (''ETH'', \<lparr>Symbol = ''ETH'', Name = ''Ethereum'', Price = 2280, Change24h = - (12 / 10),
        Volume = 15200000000, High24h = 2350, Low24h = 2250\<rparr>),
     (''SOL'', \<lparr>Symbol = ''SOL'', Name = ''Solana'', Price = 985 / 10, Change24h = 58 / 10,
        Volume = 2100000000, High24h = 102, Low24h = 94\<rparr>),
     (''ADA'', \<lparr>Symbol = ''ADA'', Name = ''Cardano'', Price = 52 / 100, Change24h = - (8 / 10),
        Volume = 450000000, High24h = 55 / 100, Low24h = 50 / 100\<rparr>),
     (''DOT'', \<lparr>Symbol = ''DOT'', Name = ''Polkadot'', Price = 725 / 100, Change24h = 13 / 10,
        Volume = 320000000, High24h = 750 / 100, Low24h = 710 / 100\<rparr>),
     (''AVAX'', \<lparr>Symbol = ''AVAX'', Name = ''Avalanche'', Price = 3580 / 100, Change24h = 32 / 10,
        Volume = 580000000, High24h = 37, Low24h = 3450 / 100\<rparr>)]"

definition initial_state :: state where
  "initial_state = \<lparr>cryptos = initial_cryptos, chans = [], clients = [],
     totalTrades = 0, totalVolume = 0, activeTraders = 0\<rparr>"

section \<open>Floating-point arithmetic\<close>

text \<open>
  \<open>round_even\<close> is the nearest integer, a tie going to the even one. \<open>ulp_exp x\<close> is the
  exponent of the spacing of the doubles around \<open>x\<close>: 52 below the exponent of \<open>x\<close>, and
  never below -1074, the spacing of the subnormal numbers. \<open>float64 x\<close> is the multiple of
  that spacing nearest to \<open>x\<close>, and \<open>binary64\<close> the set of the doubles, with no upper bound
  on the exponent. The literals of the source are decimal; \<open>to_float\<close> converts the fields
  of an entry, as the compiler does, and \<open>startup_state\<close> is the state the program starts in.
\<close>

definition round_even :: "real \<Rightarrow> int" where
  "round_even x =
     (if x - of_int \<lfloor>x\<rfloor> < 1 / 2 then \<lfloor>x\<rfloor>
      else if 1 / 2 < x - of_int \<lfloor>x\<rfloor> then \<lfloor>x\<rfloor> + 1
      else if even \<lfloor>x\<rfloor> then \<lfloor>x\<rfloor> else \<lfloor>x\<rfloor> + 1)"

definition ulp_exp :: "real \<Rightarrow> int" where
  "ulp_exp x = max (\<lfloor>log 2 \<bar>x\<bar>\<rfloor> - 52) (- 1074)"

definition float64 :: "real \<Rightarrow> real" where
  "float64 x =
     (if x = 0 then 0
      else of_int (round_even (x / 2 powr of_int (ulp_exp x))) * 2 powr of_int (ulp_exp x))"

definition binary64 :: "real set" where
  "binary64 = {of_int m * 2 powr of_int e | m e. \<bar>m\<bar> \<le> 2 ^ 53 \<and> - 1074 \<le> e}"

definition to_float :: "(real \<Rightarrow> real) \<Rightarrow> Crypto \<Rightarrow> Crypto" where
  "to_float fl c =
     c\<lparr>Price := fl (Price c), Change24h := fl (Change24h c), Volume := fl (Volume c),
       High24h := fl (High24h c), Low24h := fl (Low24h c)\<rparr>"

definition startup_state :: "(real \<Rightarrow> real) \<Rightarrow> state" where
  "startup_state fl =
     initial_state\<lparr>cryptos := map (\<lambda>(symbol, c). (symbol, to_float fl c)) initial_cryptos\<rparr>"

section \<open>Channels\<close>

text \<open>\<^verbatim>\<open>make(chan SSEMessage, n)\<close>: a new, empty, open channel of capacity \<open>n\<close>.\<close>

definition make_chan :: "nat \<Rightarrow> state \<Rightarrow> chan_id \<times> state" where
  "make_chan n s =
     (length (chans s), s\<lparr>chans := chans s @ [\<lparr>buf = [], cap = n, closed = False\<rparr>]\<rparr>)"

text \<open>
  \<^verbatim>\<open>select { case ch <- msg: default: }\<close>. Sending on a closed channel panics. An open
  channel with room in its buffer takes the message; otherwise the \<^verbatim>\<open>default\<close> branch
  runs and nothing changes. (A receiver that is already waiting takes the message at
  once; it waits only at an empty buffer, so for a capacity above zero that is the first
  case.) A nil channel is never ready.
\<close>

definition try_send :: "channel list \<Rightarrow> chan_id \<Rightarrow> SSEMessage \<Rightarrow> error + channel list" where
  "try_send h c msg =
     (if c < length h then
        (if closed (h ! c) then Inl SendOnClosedChannel
         else if length (buf (h ! c)) < cap (h ! c)
           then Inr (h[c := (h ! c)\<lparr>buf := buf (h ! c) @ [msg]\<rparr>])
           else Inr h)
      else Inr h)"

text \<open>\<^verbatim>\<open>close(ch)\<close> panics on a closed and on a nil channel.\<close>

definition close_chan :: "channel list \<Rightarrow> chan_id \<Rightarrow> error + channel list" where
  "close_chan h c =
     (if c < length h then
        (if closed (h ! c) then Inl CloseOfClosedChannel
         else Inr (h[c := (h ! c)\<lparr>closed := True\<rparr>]))
      else Inl CloseOfNilChannel)"

text \<open>
  \<^verbatim>\<open>msg := <-ch\<close>: the oldest message of the buffer; the zero message from a closed,
  empty channel; \<open>None\<close> where the receive would block.
\<close>

definition zero_message :: SSEMessage where
  "zero_message = \<lparr>Event = [], Data = NilData\<rparr>"

definition recv_chan :: "channel list \<Rightarrow> chan_id \<Rightarrow> (SSEMessage \<times> channel list) option" where
  "recv_chan h c =
     (if c < length h then
        (case buf (h ! c) of
           m # rest \<Rightarrow> Some (m, h[c := (h ! c)\<lparr>buf := rest\<rparr>])
         | [] \<Rightarrow> if closed (h ! c) then Some (zero_message, h) else None)
      else None)"

section \<open>SSE client management\<close>

text \<open>
  The registry \<^verbatim>\<open>clients\<close> is a Go map from channels to \<^verbatim>\<open>bool\<close>, here an association
  list with the channel identities as keys. The order of the list stands for the order in
  which \<^verbatim>\<open>range clients\<close> happens to visit the keys.
\<close>

definition addClient :: "chan_id \<Rightarrow> state \<Rightarrow> state" where
  "addClient ch s =
     s\<lparr>clients := AList.update ch True (clients s), activeTraders := activeTraders s + 1\<rparr>"

definition removeClient :: "chan_id \<Rightarrow> state \<Rightarrow> error + state" where
  "removeClient ch s =
     (case close_chan (chans s) ch of
        Inl e \<Rightarrow> Inl e
      | Inr h \<Rightarrow> Inr (s\<lparr>clients := AList.delete ch (clients s), chans := h,
                        activeTraders := activeTraders s - 1\<rparr>))"

fun broadcast_loop :: "chan_id list \<Rightarrow> SSEMessage \<Rightarrow> channel list \<Rightarrow> error + channel list" where
  "broadcast_loop [] msg h = Inr h"
| "broadcast_loop (ch # rest) msg h =
     (case try_send h ch msg of
        Inl e \<Rightarrow> Inl e
      | Inr h' \<Rightarrow> broadcast_loop rest msg h')"

definition broadcast :: "SSEMessage \<Rightarrow> state \<Rightarrow> error + state" where
  "broadcast msg s =
     (case broadcast_loop (map fst (clients s)) msg (chans s) of
        Inl e \<Rightarrow> Inl e
      | Inr h \<Rightarrow> Inr (s\<lparr>chans := h\<rparr>))"

section \<open>Market simulation\<close>

definition symbols :: "string list" where
  "symbols = [''BTC'', ''ETH'', ''SOL'', ''ADA'', ''DOT'', ''AVAX'']"

text \<open>
  The body of the loop of \<^verbatim>\<open>updatePrices\<close> for one entry of the map. \<open>r1\<close>, \<open>r2\<close> and
  \<open>r3\<close> are the values that the three calls of \<^verbatim>\<open>rand.Float64()\<close> return, in the order
  of the calls.
\<close>

definition updateCrypto :: "(real \<Rightarrow> real) \<Rightarrow> real \<Rightarrow> real \<Rightarrow> real \<Rightarrow> Crypto \<Rightarrow> Crypto" where
  "updateCrypto fl r1 r2 r3 crypto =
     (let changePercent = fl (fl (r1 - 1 / 2) * 4);
          priceChange = fl (Price crypto * fl (changePercent / 100));
          c1 = crypto\<lparr>Price := fl (Price crypto + priceChange)\<rparr>;
          c2 = c1\<lparr>Change24h := fl (Change24h c1 + fl (fl (r2 - 1 / 2) * (1 / 2)))\<rparr>;
          c3 = c2\<lparr>Change24h := max (- 20) (min 20 (Change24h c2))\<rparr>;
          c4 = (if Price c3 > High24h c3 then c3\<lparr>High24h := Price c3\<rparr> else c3);
          c5 = (if Price c4 < Low24h c4 then c4\<lparr>Low24h := Price c4\<rparr> else c4)
      in c5\<lparr>Volume := fl (Volume c5 + fl (r3 * 10000000))\<rparr>)"

text \<open>
  The loop over \<^verbatim>\<open>symbols\<close>. \<open>rnd k\<close> is the value of the \<open>k\<close>-th call of
  \<^verbatim>\<open>rand.Float64()\<close> of this tick and \<open>n\<close> counts the calls made so far. The map holds
  pointers: a symbol that is not a key gives a nil pointer, and reading its field panics.
\<close>

fun updatePrices_loop ::
  "(real \<Rightarrow> real) \<Rightarrow> (nat \<Rightarrow> real) \<Rightarrow> nat \<Rightarrow> string list \<Rightarrow> (string \<times> Crypto) list
     \<Rightarrow> error + (string \<times> Crypto) list" where
  "updatePrices_loop fl rnd n [] m = Inr m"
| "updatePrices_loop fl rnd n (symbol # rest) m =
     (case map_of m symbol of
        None \<Rightarrow> Inl NilPointerDereference
      | Some crypto \<Rightarrow>
          updatePrices_loop fl rnd (n + 3) rest
            (AList.update symbol
               (updateCrypto fl (rnd n) (rnd (n + 1)) (rnd (n + 2)) crypto) m))"

definition getCryptoList :: "state \<Rightarrow> Crypto list" where
  "getCryptoList s = map snd (cryptos s)"

definition updatePrices :: "(real \<Rightarrow> real) \<Rightarrow> (nat \<Rightarrow> real) \<Rightarrow> state \<Rightarrow> error + state" where
  "updatePrices fl rnd s =
     (case updatePrices_loop fl rnd 0 symbols (cryptos s) of
        Inl e \<Rightarrow> Inl e
      | Inr m \<Rightarrow>
          broadcast \<lparr>Event = ''prices'', Data = CryptoListData (getCryptoList (s\<lparr>cryptos := m\<rparr>))\<rparr>
            (s\<lparr>cryptos := m\<rparr>))"

text \<open>The price ticker: one call of \<^verbatim>\<open>updatePrices\<close> for each element of \<open>rnds\<close>.\<close>

fun price_ticks :: "(real \<Rightarrow> real) \<Rightarrow> (nat \<Rightarrow> real) list \<Rightarrow> state \<Rightarrow> error + state" where
  "price_ticks fl [] s = Inr s"
| "price_ticks fl (rnd # rnds) s =
     (case updatePrices fl rnd s of Inl e \<Rightarrow> Inl e | Inr s' \<Rightarrow> price_ticks fl rnds s')"

text \<open>\<^verbatim>\<open>math.Round\<close>: the nearest integer, halves away from zero.\<close>

definition go_round :: "real \<Rightarrow> real" where
  "go_round x = (if x < 0 then - of_int \<lfloor>- x + 1 / 2\<rfloor> else of_int \<lfloor>x + 1 / 2\<rfloor>)"

text \<open>
  \<^verbatim>\<open>generateTrade\<close>. \<open>idx\<close> is the value of \<^verbatim>\<open>rand.Intn(len(symbols))\<close>, \<open>f32\<close> of
  \<^verbatim>\<open>rand.Float32()\<close>, \<open>r1\<close> of the first \<^verbatim>\<open>rand.Float64()\<close> and \<open>r2\<close> of the second, which
  is called for BTC only; \<open>nano\<close> is \<^verbatim>\<open>time.Now().UnixNano()\<close> in decimal and \<open>clock\<close> the
  formatted time. \<open>trade_amount\<close> is the local variable \<^verbatim>\<open>amount\<close> and \<open>makeTrade\<close> the
  struct literal.
\<close>

definition trade_amount :: "(real \<Rightarrow> real) \<Rightarrow> string \<Rightarrow> real \<Rightarrow> real \<Rightarrow> real" where
  "trade_amount fl symbol r1 r2 = (if symbol = ''BTC'' then fl (r2 * 2) else fl (r1 * 10))"

definition makeTrade ::
  "(real \<Rightarrow> real) \<Rightarrow> string \<Rightarrow> string \<Rightarrow> real \<Rightarrow> real \<Rightarrow> string \<Rightarrow> string \<Rightarrow> Trade" where
  "makeTrade fl symbol tradeType price amount nano clock =
     \<lparr>Trade_ID = ''T'' @ nano,
      Trade_Symbol = symbol,
      Trade_Type = tradeType,
      Trade_Price = price,
      Trade_Amount = fl (go_round (fl (amount * 10000)) / 10000),
      Trade_Total = fl (go_round (fl (fl (price * amount) * 100)) / 100),
      Trade_Timestamp = clock\<rparr>"

definition generateTrade ::
  "(real \<Rightarrow> real) \<Rightarrow> nat \<Rightarrow> real \<Rightarrow> real \<Rightarrow> real \<Rightarrow> string \<Rightarrow> string \<Rightarrow> state \<Rightarrow> error + state" where
  "generateTrade fl idx f32 r1 r2 nano clock s =
     (if idx < length symbols then
        (case map_of (cryptos s) (symbols ! idx) of
           None \<Rightarrow> Inl NilPointerDereference
         | Some crypto \<Rightarrow>
             (let symbol = symbols ! idx;
                  tradeType = (if f32 > 1 / 2 then ''sell'' else ''buy'');
                  amount = trade_amount fl symbol r1 r2;
                  trade = makeTrade fl symbol tradeType (Price crypto) amount nano clock
              in broadcast \<lparr>Event = ''trade'', Data = TradeData trade\<rparr>
                   (s\<lparr>totalTrades := totalTrades s + 1,
                      totalVolume := fl (totalVolume s + Trade_Total trade)\<rparr>)))
      else Inl IndexOutOfRange)"

text \<open>
  \<^verbatim>\<open>generateAlert\<close> and \<^verbatim>\<open>broadcastStats\<close>, with \<open>idx\<close> the value of
  \<^verbatim>\<open>rand.Intn(len(alerts))\<close>.
\<close>

definition alerts :: "Alert list" where
  "alerts =
    [\<lparr>Alert_ID = [], Alert_Type = ''success'', Alert_Title = ''Whale Alert'',
      Alert_Message = ''Large BTC transfer detected: 500 BTC moved to exchange'',
      Alert_Timestamp = []\<rparr>,
     \<lparr>Alert_ID = [], Alert_Type = ''warning'', Alert_Title = ''High Volatility'',
      Alert_Message = ''SOL experiencing unusual price movement'', Alert_Timestamp = []\<rparr>,
     \<lparr>Alert_ID = [], Alert_Type = ''info'', Alert_Title = ''Market Update'',
      Alert_Message = ''Trading volume up 25% in the last hour'', Alert_Timestamp = []\<rparr>,
     \<lparr>Alert_ID = [], Alert_Type = ''danger'', Alert_Title = ''Price Alert'',
      Alert_Message = ''ETH dropped below key support level'', Alert_Timestamp = []\<rparr>,
     \<lparr>Alert_ID = [], Alert_Type = ''success'', Alert_Title = ''New ATH'',
      Alert_Message = ''AVAX reached new all-time high!'', Alert_Timestamp = []\<rparr>,
     \<lparr>Alert_ID = [], Alert_Type = ''info'', Alert_Title = ''Network Update'',
      Alert_Message = ''Ethereum gas fees at 3-month low'', Alert_Timestamp = []\<rparr>,
     \<lparr>Alert_ID = [], Alert_Type = ''warning'', Alert_Title = ''Liquidation Alert'',
      Alert_Message = ''$50M in longs liquidated on BTC'', Alert_Timestamp = []\<rparr>,
     \<lparr>Alert_ID = [], Alert_Type = ''success'', Alert_Title = ''Adoption News'',
      Alert_Message = ''Major institution announces crypto investment'',
      Alert_Timestamp = []\<rparr>]"

definition generateAlert :: "nat \<Rightarrow> string \<Rightarrow> string \<Rightarrow> state \<Rightarrow> error + state" where
  "generateAlert idx nano clock s =
     (if idx < length alerts then
        broadcast
          \<lparr>Event = ''alert'',
           Data = AlertData ((alerts ! idx)\<lparr>Alert_ID := ''A'' @ nano, Alert_Timestamp := clock\<rparr>)\<rparr>
          s
      else Inl IndexOutOfRange)"

definition broadcastStats :: "(real \<Rightarrow> real) \<Rightarrow> string \<Rightarrow> state \<Rightarrow> error + state" where
  "broadcastStats fl clock s =
     broadcast
       \<lparr>Event = ''stats'',
        Data = StatsData (totalTrades s) (fl (go_round (fl (totalVolume s * 100)) / 100))
                 (activeTraders s) clock\<rparr>
       s"

section \<open>HTTP handlers\<close>

text \<open>
  The response writer of one connection: the bytes written to it, and how many of them
  \<^verbatim>\<open>Flush\<close> has pushed to the peer. \<^verbatim>\<open>json.Marshal\<close> is a parameter \<open>marshal\<close>, with
  \<open>None\<close> for an error.
\<close>

record writer =
  written :: string
  flushed :: nat

definition Flush :: "writer \<Rightarrow> writer" where
  "Flush w = w\<lparr>flushed := length (written w)\<rparr>"

definition sendSSE :: "(SSEMessage \<Rightarrow> string option) \<Rightarrow> writer \<Rightarrow> SSEMessage \<Rightarrow> writer" where
  "sendSSE marshal w msg =
     (case marshal msg of
        None \<Rightarrow> w
      | Some data \<Rightarrow>
          w\<lparr>written := written w @ (''event: message'' @ [CHR 0x0A])
                          @ (''data: '' @ data @ [CHR 0x0A, CHR 0x0A])\<rparr>)"

text \<open>
  \<^verbatim>\<open>handleSSE\<close> in its steps: the channel is made and registered; the initial data is
  written and flushed; then each turn of the loop takes one message from the channel,
  writes and flushes it (\<open>None\<close>: the receive blocks); when the request is done the
  deferred \<^verbatim>\<open>removeClient\<close> runs.
\<close>

definition handleSSE_connect :: "state \<Rightarrow> chan_id \<times> state" where
  "handleSSE_connect s = (let (clientChan, s1) = make_chan 10 s in (clientChan, addClient clientChan s1))"

definition handleSSE_init :: "(SSEMessage \<Rightarrow> string option) \<Rightarrow> state \<Rightarrow> writer \<Rightarrow> writer" where
  "handleSSE_init marshal s w =
     Flush (sendSSE marshal w
       \<lparr>Event = ''init'',
        Data = InitData (getCryptoList s) ''Connected to CryptoStream Live''\<rparr>)"

definition handleSSE_message ::
  "(SSEMessage \<Rightarrow> string option) \<Rightarrow> chan_id \<Rightarrow> state \<times> writer \<Rightarrow> (state \<times> writer) option" where
  "handleSSE_message marshal clientChan sw =
     (case recv_chan (chans (fst sw)) clientChan of
        None \<Rightarrow> None
      | Some (msg, h) \<Rightarrow> Some ((fst sw)\<lparr>chans := h\<rparr>, Flush (sendSSE marshal (snd sw) msg)))"

definition handleSSE_done :: "chan_id \<Rightarrow> state \<Rightarrow> error + state" where
  "handleSSE_done clientChan s = removeClient clientChan s"

section \<open>Lock discipline\<close>

text \<open>
  The synchronisation skeleton of each function: its lock operations and its accesses to
  the three groups of package-level variables, in program order. \<open>stats_vars\<close> stands for
  \<^verbatim>\<open>totalTrades\<close>, \<^verbatim>\<open>totalVolume\<close> and \<^verbatim>\<open>activeTraders\<close>. The \<^verbatim>\<open>Read clients_var\<close> that
  ends \<open>sync_addClient\<close> and \<open>sync_removeClient\<close> is the \<^verbatim>\<open>len(clients)\<close> of the log line.
\<close>

datatype mutex = clientsMu | statsMu

datatype variable = cryptos_var | clients_var | stats_vars

datatype sync_event =
    Lock mutex | Unlock mutex | RLock mutex | RUnlock mutex
  | Read variable | Write variable

definition sync_addClient :: "sync_event list" where
  "sync_addClient =
     [Lock clientsMu, Write clients_var, Unlock clientsMu,
      Lock statsMu, Write stats_vars, Unlock statsMu,
      Read clients_var]"

definition sync_removeClient :: "sync_event list" where
  "sync_removeClient =
     [Lock clientsMu, Write clients_var, Unlock clientsMu,
      Lock statsMu, Write stats_vars, Unlock statsMu,
      Read clients_var]"

definition sync_broadcast :: "sync_event list" where
  "sync_broadcast = [RLock clientsMu, Read clients_var, RUnlock clientsMu]"

definition sync_getCryptoList :: "sync_event list" where
  "sync_getCryptoList = [Read cryptos_var]"

definition sync_updatePrices :: "sync_event list" where
  "sync_updatePrices =
     concat (map (\<lambda>symbol. [Read cryptos_var, Write cryptos_var]) symbols)
     @ sync_getCryptoList @ sync_broadcast"

definition sync_generateTrade :: "sync_event list" where
  "sync_generateTrade =
     [Read cryptos_var, Lock statsMu, Write stats_vars, Unlock statsMu] @ sync_broadcast"

definition sync_broadcastStats :: "sync_event list" where
  "sync_broadcastStats = [RLock statsMu, Read stats_vars, RUnlock statsMu] @ sync_broadcast"

definition sync_handleSSE :: "sync_event list" where
  "sync_handleSSE = sync_addClient @ sync_getCryptoList @ sync_removeClient"

text \<open>The locks held at each access to \<open>v\<close>, given the locks \<open>held\<close> at the start.\<close>

fun locks_at :: "variable \<Rightarrow> mutex list \<Rightarrow> sync_event list \<Rightarrow> mutex list list" where
  "locks_at v held [] = []"
| "locks_at v held (Lock m # es) = locks_at v (m # held) es"
| "locks_at v held (RLock m # es) = locks_at v (m # held) es"
| "locks_at v held (Unlock m # es) = locks_at v (remove1 m held) es"
| "locks_at v held (RUnlock m # es) = locks_at v (remove1 m held) es"
| "locks_at v held (Read v' # es) = (if v' = v then held # locks_at v held es else locks_at v held es)"
| "locks_at v held (Write v' # es) = (if v' = v then held # locks_at v held es else locks_at v held es)"

section \<open>Operation sequences and invariants\<close>

text \<open>
  The operations on the hub, each atomic under \<^verbatim>\<open>clientsMu\<close>: the \<^verbatim>\<open>make\<close> of
  \<^verbatim>\<open>handleSSE\<close>, \<^verbatim>\<open>addClient\<close>, \<^verbatim>\<open>removeClient\<close>, \<^verbatim>\<open>broadcast\<close>, and the receive of a
  handler's loop (which changes nothing when it would block).
\<close>

datatype op = MakeChan | AddClient chan_id | RemoveClient chan_id | Broadcast SSEMessage | Receive chan_id

fun step :: "op \<Rightarrow> state \<Rightarrow> error + state" where
  "step MakeChan s = Inr (snd (make_chan 10 s))"
| "step (AddClient ch) s = Inr (addClient ch s)"
| "step (RemoveClient ch) s = removeClient ch s"
| "step (Broadcast msg) s = broadcast msg s"
| "step (Receive ch) s =
     (case recv_chan (chans s) ch of None \<Rightarrow> Inr s | Some (msg, h) \<Rightarrow> Inr (s\<lparr>chans := h\<rparr>))"

fun run :: "state \<Rightarrow> op list \<Rightarrow> error + state" where
  "run s [] = Inr s"
| "run s (x # xs) = (case step x s of Inl e \<Rightarrow> Inl e | Inr s' \<Rightarrow> run s' xs)"

definition registered :: "state \<Rightarrow> chan_id set" where
  "registered s = set (map fst (clients s))"

definition queue_of :: "chan_id \<Rightarrow> state \<Rightarrow> SSEMessage list" where
  "queue_of ch s = buf (chans s ! ch)"

text \<open>A sink as \<^verbatim>\<open>handleSSE\<close> makes it: capacity 10, and no more messages than that.\<close>

definition sink_ok :: "channel \<Rightarrow> bool" where
  "sink_ok ch \<longleftrightarrow> cap ch = 10 \<and> length (buf ch) \<le> cap ch"

text \<open>
  The invariant of the hub: no channel is registered twice, every registered channel has
  been made and is open, and every channel is a sink as above.
\<close>

definition hub_inv :: "state \<Rightarrow> bool" where
  "hub_inv s \<longleftrightarrow>
     distinct (map fst (clients s)) \<and>
     (\<forall>c \<in> registered s. c < length (chans s) \<and> \<not> closed (chans s ! c)) \<and>
     (\<forall>ch \<in> set (chans s). sink_ok ch)"

definition counter_ok :: "state \<Rightarrow> bool" where
  "counter_ok s \<longleftrightarrow> activeTraders s = of_nat (length (clients s))"

text \<open>
  An operation is enabled when it is one the program performs: \<^verbatim>\<open>addClient\<close> on an open
  channel that is not registered, \<^verbatim>\<open>removeClient\<close> on a registered one. A sequence is
  admissible when each operation is enabled in the state it runs in.
\<close>

fun enabled :: "state \<Rightarrow> op \<Rightarrow> bool" where
  "enabled s (AddClient ch) \<longleftrightarrow>
     ch \<notin> registered s \<and> ch < length (chans s) \<and> \<not> closed (chans s ! ch)"
| "enabled s (RemoveClient ch) \<longleftrightarrow> ch \<in> registered s"
| "enabled s _ \<longleftrightarrow> True"

fun admissible :: "state \<Rightarrow> op list \<Rightarrow> bool" where
  "admissible s [] \<longleftrightarrow> True"
| "admissible s (x # xs) \<longleftrightarrow>
     enabled s x \<and> (case step x s of Inl e \<Rightarrow> False | Inr s' \<Rightarrow> admissible s' xs)"

text \<open>The number of calls of \<^verbatim>\<open>addClient\<close> and of \<^verbatim>\<open>removeClient\<close> in a sequence.\<close>

fun registers :: "op list \<Rightarrow> nat" where
  "registers [] = 0"
| "registers (AddClient ch # xs) = Suc (registers xs)"
| "registers (x # xs) = registers xs"

fun unregisters :: "op list \<Rightarrow> nat" where
  "unregisters [] = 0"
| "unregisters (RemoveClient ch # xs) = Suc (unregisters xs)"
| "unregisters (x # xs) = unregisters xs"

text \<open>The weaker condition: only each \<^verbatim>\<open>removeClient\<close> targets a registered channel.\<close>

fun unregisters_registered :: "state \<Rightarrow> op list \<Rightarrow> bool" where
  "unregisters_registered s [] \<longleftrightarrow> True"
| "unregisters_registered s (x # xs) \<longleftrightarrow>
     (case x of RemoveClient ch \<Rightarrow> ch \<in> registered s | _ \<Rightarrow> True) \<and>
     (case step x s of Inl e \<Rightarrow> False | Inr s' \<Rightarrow> unregisters_registered s' xs)"

text \<open>What \<^verbatim>\<open>select\<close> does to an open channel: append if there is room, else nothing.\<close>

definition enqueue :: "SSEMessage \<Rightarrow> channel \<Rightarrow> channel" where
  "enqueue msg ch = (if length (buf ch) < cap ch then ch\<lparr>buf := buf ch @ [msg]\<rparr> else ch)"

section \<open>Numeric notions\<close>

text \<open>
  The map holds every symbol of \<^verbatim>\<open>symbols\<close>, as it does from the start: \<^verbatim>\<open>updatePrices\<close>
  changes fields, never keys.
\<close>

definition tracked :: "state \<Rightarrow> bool" where
  "tracked s \<longleftrightarrow> set symbols \<subseteq> set (map fst (cryptos s))"

text \<open>
  \<open>fl\<close> rounds to nearest onto the set \<open>F\<close> of representable numbers: its value is in \<open>F\<close>
  and no element of \<open>F\<close> is closer to the argument. Ties may go either way. Zero is
  representable.
\<close>

definition rounds_to_nearest :: "real set \<Rightarrow> (real \<Rightarrow> real) \<Rightarrow> bool" where
  "rounds_to_nearest F fl \<longleftrightarrow>
     0 \<in> F \<and> (\<forall>x. fl x \<in> F \<and> (\<forall>y \<in> F. \<bar>fl x - x\<bar> \<le> \<bar>y - x\<bar>))"

text \<open>
  The error of one rounding is at most \<open>u\<close> times the size of the argument plus \<open>eta\<close>. For
  \<open>float64\<close> these are \<open>1 / 2 ^ 53\<close> and \<open>1 / 2 ^ 1075\<close>.
\<close>

definition fl_error :: "real \<Rightarrow> real \<Rightarrow> (real \<Rightarrow> real) \<Rightarrow> bool" where
  "fl_error u eta fl \<longleftrightarrow> 0 \<le> u \<and> 0 \<le> eta \<and> (\<forall>x. \<bar>fl x - x\<bar> \<le> u * \<bar>x\<bar> + eta)"

text \<open>Exact arithmetic: nothing is rounded.\<close>

definition exact :: "real \<Rightarrow> real" where
  "exact x = x"

text \<open>The values \<^verbatim>\<open>rand.Float64()\<close> returns lie in the half-open interval from 0 to 1.\<close>

definition unit_draws :: "(nat \<Rightarrow> real) \<Rightarrow> bool" where
  "unit_draws rnd \<longleftrightarrow> (\<forall>n. 0 \<le> rnd n \<and> rnd n < 1)"

text \<open>Every call of \<^verbatim>\<open>rand.Float64()\<close> returns 0.\<close>

definition zero_draws :: "nat \<Rightarrow> real" where
  "zero_draws n = 0"

definition price_of :: "string \<Rightarrow> state \<Rightarrow> real option" where
  "price_of symbol s = map_option Price (map_of (cryptos s) symbol)"

text \<open>Rounding to \<open>d\<close> decimal places, halves away from zero.\<close>

definition round_to :: "nat \<Rightarrow> real \<Rightarrow> real" where
  "round_to d x = go_round (x * 10 ^ d) / 10 ^ d"

text \<open>Relations between an entry of the map before and after some ticks.\<close>

definition extrema_rel :: "Crypto \<Rightarrow> Crypto \<Rightarrow> bool" where
  "extrema_rel c c' \<longleftrightarrow> High24h c \<le> High24h c' \<and> Low24h c' \<le> Low24h c"

definition positive_rel :: "real set \<Rightarrow> Crypto \<Rightarrow> Crypto \<Rightarrow> bool" where
  "positive_rel F c c' \<longleftrightarrow> (Price c \<in> F \<and> 0 < Price c \<longrightarrow> Price c' \<in> F \<and> 0 < Price c')"

section \<open>Example states\<close>

definition sample_message :: SSEMessage where
  "sample_message = \<lparr>Event = ''alert'', Data = NilData\<rparr>"

definition two_sinks :: state where
  "two_sinks = \<lparr>cryptos = initial_cryptos,
     chans = [\<lparr>buf = replicate 10 sample_message, cap = 10, closed = False\<rparr>,
              \<lparr>buf = [], cap = 10, closed = False\<rparr>],
     clients = [(0, True), (1, True)],
     totalTrades = 0, totalVolume = 0, activeTraders = 2\<rparr>"

definition one_sink :: state where
  "one_sink = \<lparr>cryptos = initial_cryptos,
     chans = [\<lparr>buf = [sample_message], cap = 10, closed = False\<rparr>],
     clients = [(0, True)],
     totalTrades = 0, totalVolume = 0, activeTraders = 1\<rparr>"

definition one_sink_removed :: state where
  "one_sink_removed = \<lparr>cryptos = initial_cryptos,
     chans = [\<lparr>buf = [sample_message], cap = 10, closed = True\<rparr>],
     clients = [],
     totalTrades = 0, totalVolume = 0, activeTraders = 0\<rparr>"

definition idle_sink :: state where
  "idle_sink = \<lparr>cryptos = cryptos (startup_state float64),
     chans = [\<lparr>buf = [], cap = 10, closed = False\<rparr>],
     clients = [(0, True)],
     totalTrades = 0, totalVolume = 0, activeTraders = 1\<rparr>"

definition sample_writer :: writer where
  "sample_writer = \<lparr>written = ''event: message'', flushed = 0\<rparr>"

section \<open>The hub: registry and broadcast\<close>

lemma try_send_open:
  assumes "c < length h" "\<not> closed (h ! c)"
  shows "try_send h c msg = Inr (h[c := enqueue msg (h ! c)])"
  using assms by (simp add: try_send_def enqueue_def)

lemma closed_enqueue [simp]: "closed (enqueue msg ch) = closed ch"
  by (simp add: enqueue_def)

lemma cap_enqueue [simp]: "cap (enqueue msg ch) = cap ch"
  by (simp add: enqueue_def)

lemma sink_ok_enqueue: "sink_ok ch \<Longrightarrow> sink_ok (enqueue msg ch)"
  by (simp add: enqueue_def sink_ok_def)

lemma broadcast_loop_open:
  assumes "distinct cs" "\<forall>c \<in> set cs. c < length h \<and> \<not> closed (h ! c)"
  shows "\<exists>h'. broadcast_loop cs msg h = Inr h' \<and> length h' = length h \<and>
           (\<forall>c < length h. h' ! c = (if c \<in> set cs then enqueue msg (h ! c) else h ! c))"
  using assms
proof (induction cs arbitrary: h)
  case Nil
  then show ?case by simp
next
  case (Cons a cs)
  let ?h1 = "h[a := enqueue msg (h ! a)]"
  from Cons.prems have a: "a < length h" "\<not> closed (h ! a)" "a \<notin> set cs" "distinct cs"
    by auto
  have step: "try_send h a msg = Inr ?h1"
    using a by (simp add: try_send_open)
  have pre: "\<forall>c \<in> set cs. c < length ?h1 \<and> \<not> closed (?h1 ! c)"
    using Cons.prems a by (auto simp: nth_list_update)
  from Cons.IH [OF a(4) pre] obtain h' where
    h': "broadcast_loop cs msg ?h1 = Inr h'" "length h' = length ?h1"
        "\<forall>c < length ?h1. h' ! c = (if c \<in> set cs then enqueue msg (?h1 ! c) else ?h1 ! c)"
    by blast
  have "\<forall>c < length h. h' ! c = (if c \<in> set (a # cs) then enqueue msg (h ! c) else h ! c)"
    using h'(3) a by (auto simp: nth_list_update)
  with h' step show ?case by simp
qed

lemma broadcast_registered:
  assumes "hub_inv s"
  shows "\<exists>s'. broadcast msg s = Inr s' \<and>
           clients s' = clients s \<and> length (chans s') = length (chans s) \<and>
           (\<forall>c \<in> registered s.
              chans s' ! c =
                (if length (buf (chans s ! c)) < 10
                 then (chans s ! c)\<lparr>buf := buf (chans s ! c) @ [msg]\<rparr>
                 else chans s ! c)) \<and>
           (\<forall>c < length (chans s). c \<notin> registered s \<longrightarrow> chans s' ! c = chans s ! c) \<and>
           (\<forall>c < length (chans s'). length (buf (chans s' ! c)) \<le> 10) \<and>
           hub_inv s'"
proof -
  from assms have d: "distinct (map fst (clients s))"
    and o: "\<forall>c \<in> set (map fst (clients s)). c < length (chans s) \<and> \<not> closed (chans s ! c)"
    and q0: "\<forall>ch \<in> set (chans s). sink_ok ch"
    unfolding hub_inv_def registered_def by blast+
  have q: "\<forall>c < length (chans s). sink_ok (chans s ! c)"
    using q0 nth_mem by blast
  from broadcast_loop_open [OF d o, of msg] obtain h' where
    h': "broadcast_loop (map fst (clients s)) msg (chans s) = Inr h'" "length h' = length (chans s)"
        "\<forall>c < length (chans s). h' ! c =
           (if c \<in> set (map fst (clients s)) then enqueue msg (chans s ! c) else chans s ! c)"
    by blast
  let ?s' = "s\<lparr>chans := h'\<rparr>"
  have b: "broadcast msg s = Inr ?s'"
    using h'(1) by (simp add: broadcast_def)
  have reg: "\<forall>c \<in> registered s. chans ?s' ! c =
                (if length (buf (chans s ! c)) < 10
                 then (chans s ! c)\<lparr>buf := buf (chans s ! c) @ [msg]\<rparr>
                 else chans s ! c)"
  proof
    fix c assume c: "c \<in> registered s"
    with o have l: "c < length (chans s)" unfolding registered_def by blast
    with q have "cap (chans s ! c) = 10" by (simp add: sink_ok_def)
    moreover from h'(3) l c have "h' ! c = enqueue msg (chans s ! c)"
      unfolding registered_def by simp
    ultimately show "chans ?s' ! c =
                (if length (buf (chans s ! c)) < 10
                 then (chans s ! c)\<lparr>buf := buf (chans s ! c) @ [msg]\<rparr>
                 else chans s ! c)"
      by (simp add: enqueue_def)
  qed
  have unreg: "\<forall>c < length (chans s). c \<notin> registered s \<longrightarrow> chans ?s' ! c = chans s ! c"
    using h'(3) unfolding registered_def by simp
  have q': "\<forall>c < length h'. sink_ok (h' ! c)"
    using h'(2,3) q by (simp add: sink_ok_enqueue)
  then have q'': "\<forall>ch \<in> set h'. sink_ok ch"
    by (auto simp: in_set_conv_nth)
  have o': "\<forall>c \<in> set (map fst (clients s)). c < length h' \<and> \<not> closed (h' ! c)"
    using o h'(2,3) by auto
  have inv': "hub_inv ?s'"
    using d o' q'' unfolding hub_inv_def registered_def by simp
  have bound: "\<forall>c < length (chans ?s'). length (buf (chans ?s' ! c)) \<le> 10"
    using q' by (auto simp: sink_ok_def)
  from b reg unreg bound inv' h'(2) show ?thesis
    by (intro exI [of _ ?s']) simp
qed

text \<open>
  Claim C1. In a state of the hub, \<^verbatim>\<open>broadcast\<close> returns, without a panic, and leaves
  the registry as it is. To every registered sink with fewer than 10 queued messages it
  appends the message, once; a registered sink that holds 10 messages is left exactly as
  it was, and so is every channel that is not registered. Afterwards no queue holds more
  than 10 messages and the invariant holds again.
\<close>

theorem broadcast_nonblocking:
  assumes "hub_inv s"
  shows "\<exists>s'. broadcast msg s = Inr s' \<and>
           clients s' = clients s \<and> length (chans s') = length (chans s) \<and>
           (\<forall>c \<in> registered s.
              chans s' ! c =
                (if length (buf (chans s ! c)) < 10
                 then (chans s ! c)\<lparr>buf := buf (chans s ! c) @ [msg]\<rparr>
                 else chans s ! c)) \<and>
           (\<forall>c < length (chans s). c \<notin> registered s \<longrightarrow> chans s' ! c = chans s ! c) \<and>
           (\<forall>c < length (chans s'). length (buf (chans s' ! c)) \<le> 10) \<and>
           hub_inv s'"
  using assms by (rule broadcast_registered)

lemma hub_inv_two_sinks: "hub_inv two_sinks"
  by (simp add: hub_inv_def registered_def two_sinks_def sink_ok_def)

theorem broadcast_nonblocking_witness:
  "hub_inv two_sinks \<and>
   (\<exists>s'. broadcast sample_message two_sinks = Inr s' \<and>
      buf (chans s' ! 0) = replicate 10 sample_message \<and>
      buf (chans s' ! 1) = [sample_message])"
proof -
  have r: "0 \<in> registered two_sinks" "1 \<in> registered two_sinks"
    by (simp_all add: registered_def two_sinks_def)
  from broadcast_nonblocking [OF hub_inv_two_sinks, of sample_message] obtain s' where
    s': "broadcast sample_message two_sinks = Inr s'"
    "\<forall>c \<in> registered two_sinks.
              chans s' ! c =
                (if length (buf (chans two_sinks ! c)) < 10
                 then (chans two_sinks ! c)\<lparr>buf := buf (chans two_sinks ! c) @ [sample_message]\<rparr>
                 else chans two_sinks ! c)"
    by blast
  from s'(2) r have "buf (chans s' ! 0) = replicate 10 sample_message"
    "buf (chans s' ! 1) = [sample_message]"
    by (simp_all add: two_sinks_def)
  with s'(1) hub_inv_two_sinks show ?thesis by blast
qed

lemma hub_inv_initial: "hub_inv initial_state"
  by (simp add: hub_inv_def registered_def initial_state_def)

lemma hub_inv_make_chan: "hub_inv s \<Longrightarrow> hub_inv (snd (make_chan 10 s))"
  unfolding hub_inv_def registered_def make_chan_def
  by (auto simp: nth_append sink_ok_def)

lemma hub_inv_addClient:
  assumes "hub_inv s" "ch < length (chans s)" "\<not> closed (chans s ! ch)"
  shows "hub_inv (addClient ch s)"
  using assms unfolding hub_inv_def registered_def addClient_def
  by (auto simp: distinct_update dom_update)

lemma length_update_fresh:
  "k \<notin> fst ` set al \<Longrightarrow> length (AList.update k v al) = Suc (length al)"
  by (induction al) auto

lemma length_clients_card:
  assumes "hub_inv s"
  shows "length (clients s) = card (registered s)"
proof -
  from assms have "distinct (map fst (clients s))" by (simp add: hub_inv_def)
  then have "card (set (map fst (clients s))) = length (map fst (clients s))"
    by (rule distinct_card)
  then show ?thesis by (simp add: registered_def)
qed

lemma length_delete_registered:
  assumes "distinct (map fst al)" "k \<in> fst ` set al"
  shows "Suc (length (AList.delete k al)) = length al"
  using assms by (induction al) (auto simp: rev_image_eqI)

lemma removeClient_open:
  assumes "hub_inv s" "ch < length (chans s)" "\<not> closed (chans s ! ch)"
  shows "\<exists>s'. removeClient ch s = Inr s' \<and> hub_inv s' \<and>
           clients s' = AList.delete ch (clients s) \<and>
           chans s' = (chans s)[ch := (chans s ! ch)\<lparr>closed := True\<rparr>] \<and>
           activeTraders s' = activeTraders s - 1"
proof -
  from assms(1) have d: "distinct (map fst (clients s))"
    and o: "\<forall>c \<in> registered s. c < length (chans s) \<and> \<not> closed (chans s ! c)"
    and q: "\<forall>x \<in> set (chans s). sink_ok x"
    unfolding hub_inv_def by blast+
  note c = assms(2,3)
  let ?h = "(chans s)[ch := (chans s ! ch)\<lparr>closed := True\<rparr>]"
  let ?s' = "s\<lparr>clients := AList.delete ch (clients s), chans := ?h,
                 activeTraders := activeTraders s - 1\<rparr>"
  have r: "removeClient ch s = Inr ?s'"
    using c by (simp add: removeClient_def close_chan_def)
  have d': "distinct (map fst (AList.delete ch (clients s)))"
    using d by (rule distinct_delete)
  have keys: "registered ?s' = registered s - {ch}"
    by (simp add: registered_def delete_keys)
  have o': "\<forall>c \<in> registered ?s'. c < length ?h \<and> \<not> closed (?h ! c)"
    using o keys by (auto simp: nth_list_update)
  have "sink_ok ((chans s ! ch)\<lparr>closed := True\<rparr>)"
    using q c(1) nth_mem by (fastforce simp: sink_ok_def)
  with q have q': "\<forall>x \<in> set ?h. sink_ok x"
    by (auto dest: set_update_subset_insert [THEN subsetD])
  have "hub_inv ?s'"
    unfolding hub_inv_def using d' o' q' by simp
  with r show ?thesis by (intro exI [of _ ?s']) simp
qed

lemma removeClient_returns:
  assumes "removeClient ch s = Inr s'"
  shows "ch < length (chans s) \<and> \<not> closed (chans s ! ch)"
  using assms by (auto simp: removeClient_def close_chan_def split: sum.splits if_splits)

lemma removeClient_registered:
  assumes "hub_inv s" "ch \<in> registered s"
  shows "\<exists>s'. removeClient ch s = Inr s' \<and> hub_inv s' \<and>
           clients s' = AList.delete ch (clients s) \<and>
           chans s' = (chans s)[ch := (chans s ! ch)\<lparr>closed := True\<rparr>] \<and>
           activeTraders s' = activeTraders s - 1"
proof -
  from assms have "ch < length (chans s)" "\<not> closed (chans s ! ch)"
    unfolding hub_inv_def by blast+
  with assms(1) show ?thesis by (rule removeClient_open)
qed

lemma hub_inv_recv:
  assumes "hub_inv s" "recv_chan (chans s) ch = Some (msg, h)"
  shows "hub_inv (s\<lparr>chans := h\<rparr>)"
proof -
  from assms(2) have h: "h = chans s \<or> (ch < length (chans s) \<and>
      (\<exists>rest. buf (chans s ! ch) = msg # rest \<and> h = (chans s)[ch := (chans s ! ch)\<lparr>buf := rest\<rparr>]))"
    by (auto simp: recv_chan_def split: if_splits list.splits)
  from assms(1) have d: "distinct (map fst (clients s))"
    and o: "\<forall>c \<in> registered s. c < length (chans s) \<and> \<not> closed (chans s ! c)"
    and q: "\<forall>x \<in> set (chans s). sink_ok x"
    unfolding hub_inv_def by blast+
  from h show ?thesis
  proof
    assume "h = chans s" with assms(1) show ?thesis by simp
  next
    assume a: "ch < length (chans s) \<and>
      (\<exists>rest. buf (chans s ! ch) = msg # rest \<and> h = (chans s)[ch := (chans s ! ch)\<lparr>buf := rest\<rparr>])"
    then obtain rest where rest: "buf (chans s ! ch) = msg # rest"
      "h = (chans s)[ch := (chans s ! ch)\<lparr>buf := rest\<rparr>]" by blast
    from q a have "sink_ok (chans s ! ch)" using nth_mem by blast
    with rest have "sink_ok ((chans s ! ch)\<lparr>buf := rest\<rparr>)" by (simp add: sink_ok_def)
    with q rest have q': "\<forall>x \<in> set h. sink_ok x"
      by (auto dest: set_update_subset_insert [THEN subsetD])
    have o': "\<forall>c \<in> registered s. c < length h \<and> \<not> closed (h ! c)"
      using o rest a by (auto simp: nth_list_update)
    show ?thesis unfolding hub_inv_def using d o' q' by (simp add: registered_def)
  qed
qed

lemma step_hub_inv:
  assumes "hub_inv s" "enabled s x"
  shows "\<exists>s'. step x s = Inr s' \<and> hub_inv s'"
proof (cases x)
  case MakeChan
  with assms show ?thesis by (simp add: hub_inv_make_chan)
next
  case (AddClient ch)
  with assms show ?thesis by (simp add: hub_inv_addClient)
next
  case (RemoveClient ch)
  with assms removeClient_registered [of s ch] show ?thesis by auto
next
  case (Broadcast msg)
  with broadcast_registered [OF assms(1), of msg] show ?thesis by auto
next
  case (Receive ch)
  with assms(1) show ?thesis
    by (cases "recv_chan (chans s) ch") (auto simp: hub_inv_recv)
qed

lemma addClient_fresh:
  assumes "ch \<notin> registered s"
  shows "registered (addClient ch s) = insert ch (registered s) \<and>
         length (clients (addClient ch s)) = length (clients s) + 1 \<and>
         activeTraders (addClient ch s) = activeTraders s + 1"
proof -
  from assms have "ch \<notin> fst ` set (clients s)" by (simp add: registered_def)
  then have "length (AList.update ch True (clients s)) = Suc (length (clients s))"
    by (rule length_update_fresh)
  then show ?thesis
    by (simp add: addClient_def registered_def dom_update)
qed

lemma removeClient_effect:
  assumes "hub_inv s" "ch \<in> registered s"
  shows "\<exists>s'. removeClient ch s = Inr s' \<and> registered s' = registered s - {ch} \<and>
           length (clients s') + 1 = length (clients s) \<and>
           activeTraders s' = activeTraders s - 1"
proof -
  from removeClient_registered [OF assms] obtain s' where
    s': "removeClient ch s = Inr s'" "clients s' = AList.delete ch (clients s)"
        "activeTraders s' = activeTraders s - 1"
    by blast
  from assms(1) have "distinct (map fst (clients s))" by (simp add: hub_inv_def)
  with assms(2) have "Suc (length (AList.delete ch (clients s))) = length (clients s)"
    by (intro length_delete_registered) (simp_all add: registered_def)
  moreover have "registered s' = registered s - {ch}"
    using s'(2) by (simp add: registered_def delete_keys)
  ultimately show ?thesis using s' by simp
qed

lemma step_counter_ok:
  assumes "hub_inv s" "counter_ok s" "enabled s x" "step x s = Inr s'"
  shows "counter_ok s'"
proof (cases x)
  case MakeChan
  with assms show ?thesis by (auto simp: counter_ok_def make_chan_def)
next
  case (AddClient ch)
  with assms have "ch \<notin> registered s" by simp
  from addClient_fresh [OF this] assms AddClient show ?thesis
    by (auto simp: counter_ok_def)
next
  case (RemoveClient ch)
  with assms have reg: "ch \<in> registered s" by simp
  from removeClient_effect [OF assms(1) reg] assms RemoveClient obtain
    "length (clients s') + 1 = length (clients s)" "activeTraders s' = activeTraders s - 1"
    by auto
  then have "activeTraders s' = of_nat (length (clients s') + 1) - 1"
    using assms(2) by (simp add: counter_ok_def)
  then show ?thesis by (simp add: counter_ok_def)
next
  case (Broadcast msg)
  with assms show ?thesis
    by (auto simp: counter_ok_def broadcast_def split: sum.splits)
next
  case (Receive ch)
  with assms show ?thesis
    by (auto simp: counter_ok_def split: option.splits)
qed

lemma step_count:
  assumes "hub_inv s" "enabled s x" "step x s = Inr s'"
  shows "int (length (clients s')) =
           int (length (clients s)) + int (registers [x]) - int (unregisters [x])"
proof (cases x)
  case MakeChan
  with assms show ?thesis by (auto simp: make_chan_def)
next
  case (AddClient ch)
  with assms have "ch \<notin> registered s" by simp
  from addClient_fresh [OF this] assms AddClient show ?thesis by auto
next
  case (RemoveClient ch)
  with assms have reg: "ch \<in> registered s" by simp
  from removeClient_effect [OF assms(1) reg] assms RemoveClient show ?thesis by auto
next
  case (Broadcast msg)
  with assms show ?thesis by (auto simp: broadcast_def split: sum.splits)
next
  case (Receive ch)
  with assms show ?thesis by (auto split: option.splits)
qed

lemma registers_Cons: "registers (x # xs) = registers [x] + registers xs"
  by (cases x) simp_all

lemma unregisters_Cons: "unregisters (x # xs) = unregisters [x] + unregisters xs"
  by (cases x) simp_all

lemma sint_counter:
  assumes "n < 2 ^ 63"
  shows "sint (of_nat n :: 64 word) = int n"
proof -
  from assms have "int n < 2 ^ 63" by (metis of_nat_less_iff of_nat_numeral of_nat_power)
  then have "signed_take_bit 63 (int n) = int n"
    by (intro signed_take_bit_int_eq_self) simp_all
  then show ?thesis by (simp add: signed_of_nat)
qed

lemma run_admissible:
  assumes "hub_inv s" "admissible s ops"
  shows "\<exists>s'. run s ops = Inr s' \<and> hub_inv s'"
  using assms
proof (induction ops arbitrary: s)
  case Nil
  then show ?case by simp
next
  case (Cons x xs)
  from Cons.prems have en: "enabled s x" by simp
  from step_hub_inv [OF Cons.prems(1) en] obtain s1 where
    s1: "step x s = Inr s1" "hub_inv s1" by blast
  with Cons.prems(2) have "admissible s1 xs" by simp
  from Cons.IH [OF s1(2) this] s1(1) show ?case by simp
qed

lemma step_cryptos:
  assumes "step x s = Inr s'"
  shows "cryptos s' = cryptos s"
  using assms
  by (cases x)
    (auto simp: make_chan_def addClient_def removeClient_def broadcast_def
      split: sum.splits option.splits)

lemma handleSSE_connect_run:
  "run s [MakeChan, AddClient (length (chans s))] = Inr (snd (handleSSE_connect s)) \<and>
   fst (handleSSE_connect s) = length (chans s)"
  by (simp add: handleSSE_connect_def make_chan_def)

lemma handleSSE_connect_admissible:
  assumes "hub_inv s"
  shows "admissible s [MakeChan, AddClient (length (chans s))]"
proof -
  from assms have "length (chans s) \<notin> registered s"
    unfolding hub_inv_def by blast
  then show ?thesis
    by (simp add: make_chan_def registered_def)
qed

lemma handleSSE_connect_sink:
  assumes "hub_inv s"
  shows "hub_inv (snd (handleSSE_connect s)) \<and>
         fst (handleSSE_connect s) \<in> registered (snd (handleSSE_connect s)) \<and>
         chans (snd (handleSSE_connect s)) ! fst (handleSSE_connect s) =
           \<lparr>buf = [], cap = 10, closed = False\<rparr>"
proof -
  from run_admissible [OF assms handleSSE_connect_admissible [OF assms]] handleSSE_connect_run [of s]
  have "hub_inv (snd (handleSSE_connect s))" by auto
  then show ?thesis
    by (simp add: handleSSE_connect_def make_chan_def addClient_def registered_def dom_update)
qed

lemma handleSSE_message_step:
  assumes "handleSSE_message marshal ch (s, w) = Some (s', w')"
  shows "step (Receive ch) s = Inr s'"
  using assms by (auto simp: handleSSE_message_def split: option.splits)

lemma handleSSE_done_step: "handleSSE_done ch s = step (RemoveClient ch) s"
  by (simp add: handleSSE_done_def)

lemma counter_ok_initial: "counter_ok initial_state"
  by (simp add: counter_ok_def initial_state_def)

text \<open>
  Claim C10, amended. In a state of the hub in which the counter equals the size of the
  registry: \<^verbatim>\<open>addClient\<close> of an open channel that is not registered adds exactly that channel
  to the registry and one to the counter; \<^verbatim>\<open>removeClient\<close> of a registered channel returns,
  takes exactly that channel out of the registry and one off the counter. A sequence of
  operations in which every \<^verbatim>\<open>addClient\<close> and every \<^verbatim>\<open>removeClient\<close> is of that kind runs to
  the end without a panic; afterwards the registry has grown by the number of calls of
  \<^verbatim>\<open>addClient\<close> less the number of calls of \<^verbatim>\<open>removeClient\<close>, and \<^verbatim>\<open>activeTraders\<close> equals the
  number of registered sinks (as a 64-bit counter; as a number while the registry holds
  fewer than \<open>2 ^ 63\<close> sinks).
\<close>

theorem counter_matches_registry:
  assumes "hub_inv s" "counter_ok s"
  shows "(enabled s (AddClient ch) \<longrightarrow>
            registered (addClient ch s) = insert ch (registered s) \<and>
            length (clients (addClient ch s)) = length (clients s) + 1 \<and>
            activeTraders (addClient ch s) = activeTraders s + 1) \<and>
         (enabled s (RemoveClient ch) \<longrightarrow>
            (\<exists>s'. removeClient ch s = Inr s' \<and> registered s' = registered s - {ch} \<and>
               length (clients s') + 1 = length (clients s) \<and>
               activeTraders s' = activeTraders s - 1)) \<and>
         (\<forall>ops. admissible s ops \<longrightarrow>
            (\<exists>s'. run s ops = Inr s' \<and>
               activeTraders s' = of_nat (length (clients s')) \<and>
               length (clients s') = card (registered s') \<and>
               int (length (clients s')) =
                 int (length (clients s)) + int (registers ops) - int (unregisters ops) \<and>
               (length (clients s') < 2 ^ 63 \<longrightarrow>
                  sint (activeTraders s') = int (length (clients s')))))"
proof (intro conjI allI impI)
  assume "enabled s (AddClient ch)"
  then have "ch \<notin> registered s" by simp
  from addClient_fresh [OF this]
  show "registered (addClient ch s) = insert ch (registered s)"
    "length (clients (addClient ch s)) = length (clients s) + 1"
    "activeTraders (addClient ch s) = activeTraders s + 1"
    by simp_all
next
  assume "enabled s (RemoveClient ch)"
  then have "ch \<in> registered s" by simp
  with assms(1) show "\<exists>s'. removeClient ch s = Inr s' \<and> registered s' = registered s - {ch} \<and>
               length (clients s') + 1 = length (clients s) \<and>
               activeTraders s' = activeTraders s - 1"
    by (rule removeClient_effect)
next
  fix ops assume "admissible s ops"
  with assms have "\<exists>s'. run s ops = Inr s' \<and> hub_inv s' \<and> counter_ok s' \<and>
      int (length (clients s')) =
        int (length (clients s)) + int (registers ops) - int (unregisters ops)"
  proof (induction ops arbitrary: s)
    case Nil
    then show ?case by simp
  next
    case (Cons x xs)
    from Cons.prems have en: "enabled s x" by simp
    from step_hub_inv [OF Cons.prems(1) en] obtain s1 where
      s1: "step x s = Inr s1" "hub_inv s1" by blast
    from step_counter_ok [OF Cons.prems(1,2) en s1(1)] have c1: "counter_ok s1" .
    from step_count [OF Cons.prems(1) en s1(1)] have n1: "int (length (clients s1)) =
           int (length (clients s)) + int (registers [x]) - int (unregisters [x])" .
    from s1 Cons.prems(3) have "admissible s1 xs" by simp
    from Cons.IH [OF s1(2) c1 this] obtain s' where
      s': "run s1 xs = Inr s'" "hub_inv s'" "counter_ok s'"
        "int (length (clients s')) =
           int (length (clients s1)) + int (registers xs) - int (unregisters xs)"
      by blast
    from s'(4) n1 have "int (length (clients s')) =
        int (length (clients s)) + int (registers (x # xs)) - int (unregisters (x # xs))"
      by (simp add: registers_Cons [of x xs] unregisters_Cons [of x xs])
    with s1(1) s'(1,2,3) show ?case by simp
  qed
  then obtain s' where s': "run s ops = Inr s'" "hub_inv s'" "counter_ok s'"
    "int (length (clients s')) =
        int (length (clients s)) + int (registers ops) - int (unregisters ops)"
    by blast
  from s'(3) have w: "activeTraders s' = of_nat (length (clients s'))"
    by (simp add: counter_ok_def)
  have "sint (activeTraders s') = int (length (clients s'))"
    if "length (clients s') < 2 ^ 63"
    unfolding w using that by (rule sint_counter)
  with s' w length_clients_card [OF s'(2)]
  show "\<exists>s'. run s ops = Inr s' \<and>
               activeTraders s' = of_nat (length (clients s')) \<and>
               length (clients s') = card (registered s') \<and>
               int (length (clients s')) =
                 int (length (clients s)) + int (registers ops) - int (unregisters ops) \<and>
               (length (clients s') < 2 ^ 63 \<longrightarrow>
                  sint (activeTraders s') = int (length (clients s')))"
    by blast
qed

theorem counter_matches_registry_witness:
  "hub_inv initial_state \<and> counter_ok initial_state \<and>
   admissible initial_state [MakeChan, AddClient 0, MakeChan, AddClient 1, RemoveClient 0] \<and>
   map_sum id clients
     (run initial_state [MakeChan, AddClient 0, MakeChan, AddClient 1, RemoveClient 0]) =
     Inr [(1, True)] \<and>
   map_sum id activeTraders
     (run initial_state [MakeChan, AddClient 0, MakeChan, AddClient 1, RemoveClient 0]) =
     Inr 1"
proof -
  let ?ops = "[MakeChan, AddClient 0, MakeChan, AddClient 1, RemoveClient 0]"
  have a: "admissible initial_state ?ops"
    by (simp add: initial_state_def make_chan_def addClient_def removeClient_def close_chan_def
        registered_def)
  have e: "map_sum id clients (run initial_state ?ops) = Inr [(1, True)]"
    by (simp add: initial_state_def make_chan_def addClient_def removeClient_def close_chan_def)
  from counter_matches_registry [OF hub_inv_initial counter_ok_initial, of 0] a
  obtain s' where s': "run initial_state ?ops = Inr s'"
    "activeTraders s' = of_nat (length (clients s'))"
    by blast
  from e s'(1) have "clients s' = [(1, True)]" by simp
  with s'(2) have "activeTraders s' = 1" by simp
  with s'(1) have "map_sum id activeTraders (run initial_state ?ops) = Inr 1" by simp
  with hub_inv_initial counter_ok_initial a e show ?thesis by blast
qed

text \<open>
  The claim as stated restricts \<^verbatim>\<open>removeClient\<close> only. Registering the same channel twice
  leaves one entry in the registry and a counter of two.
\<close>

theorem double_register_counterexample:
  "unregisters_registered initial_state [MakeChan, AddClient 0, AddClient 0] \<and>
   map_sum id clients (run initial_state [MakeChan, AddClient 0, AddClient 0]) = Inr [(0, True)] \<and>
   map_sum id activeTraders (run initial_state [MakeChan, AddClient 0, AddClient 0]) = Inr 2"
  by (simp add: initial_state_def make_chan_def addClient_def)

lemma try_send_closed_frame:
  assumes "try_send h c msg = Inr h'" "ch < length h" "closed (h ! ch)"
  shows "h' ! ch = h ! ch \<and> length h' = length h"
  using assms by (auto simp: try_send_def nth_list_update split: if_splits)

lemma broadcast_loop_closed_frame:
  assumes "broadcast_loop cs msg h = Inr h'" "ch < length h" "closed (h ! ch)"
  shows "h' ! ch = h ! ch \<and> length h' = length h"
  using assms
proof (induction cs arbitrary: h)
  case Nil
  then show ?case by simp
next
  case (Cons c cs)
  from Cons.prems(1) obtain h1 where h1: "try_send h c msg = Inr h1"
    "broadcast_loop cs msg h1 = Inr h'"
    by (auto split: sum.splits)
  from try_send_closed_frame [OF h1(1) Cons.prems(2,3)]
  have f: "h1 ! ch = h ! ch" "length h1 = length h" by simp_all
  with Cons.IH [OF h1(2)] Cons.prems(2,3) show ?case by simp
qed

lemma step_closed_frame:
  assumes "step x s = Inr s'" "ch < length (chans s)" "closed (chans s ! ch)" "x \<noteq> Receive ch"
  shows "chans s' ! ch = chans s ! ch \<and> ch < length (chans s')"
proof (cases x)
  case MakeChan
  with assms show ?thesis by (auto simp: make_chan_def nth_append)
next
  case (AddClient c)
  with assms show ?thesis by (auto simp: addClient_def)
next
  case (RemoveClient c)
  with assms show ?thesis
    by (auto simp: removeClient_def close_chan_def nth_list_update split: sum.splits if_splits)
next
  case (Broadcast msg)
  with assms obtain h where "broadcast_loop (map fst (clients s)) msg (chans s) = Inr h" "s' = s\<lparr>chans := h\<rparr>"
    by (auto simp: broadcast_def split: sum.splits)
  with broadcast_loop_closed_frame [OF this(1) assms(2,3)] assms(2) show ?thesis by simp
next
  case (Receive c)
  with assms have "c \<noteq> ch" by simp
  with Receive assms show ?thesis
    by (auto simp: recv_chan_def nth_list_update split: option.splits if_splits list.splits)
qed

lemma run_closed_frame:
  assumes "run s ops = Inr s'" "ch < length (chans s)" "closed (chans s ! ch)" "Receive ch \<notin> set ops"
  shows "chans s' ! ch = chans s ! ch"
  using assms
proof (induction ops arbitrary: s)
  case Nil
  then show ?case by simp
next
  case (Cons x xs)
  from Cons.prems(1) obtain s1 where s1: "step x s = Inr s1" "run s1 xs = Inr s'"
    by (auto split: sum.splits)
  from Cons.prems(4) have ne: "x \<noteq> Receive ch" "Receive ch \<notin> set xs" by auto
  from step_closed_frame [OF s1(1) Cons.prems(2,3) ne(1)]
  have f: "chans s1 ! ch = chans s ! ch" "ch < length (chans s1)" by simp_all
  with Cons.IH [OF s1(2) f(2) _ ne(2)] Cons.prems(3) show ?case by simp
qed

text \<open>
  Claim C6. \<^verbatim>\<open>removeClient\<close> of a registered sink returns. Whenever \<^verbatim>\<open>removeClient\<close> of a
  sink has returned, the sink is out of the registry, and whatever admissible operations
  follow, broadcasts among them, they all return and the sink's channel (its queue, size
  and contents) is at the end what it was right after \<^verbatim>\<open>removeClient\<close>, as long as nobody
  receives from it.
\<close>

theorem no_enqueue_after_unregister:
  assumes "hub_inv s"
  shows "(ch \<in> registered s \<longrightarrow> (\<exists>s1. removeClient ch s = Inr s1)) \<and>
         (\<forall>s1. removeClient ch s = Inr s1 \<longrightarrow>
            ch \<notin> registered s1 \<and>
            (\<forall>ops. admissible s1 ops \<and> Receive ch \<notin> set ops \<longrightarrow>
               (\<exists>s2. run s1 ops = Inr s2 \<and> chans s2 ! ch = chans s1 ! ch \<and>
                  queue_of ch s2 = queue_of ch s1)))"
proof (intro conjI allI impI)
  assume "ch \<in> registered s"
  with removeClient_registered [OF assms] show "\<exists>s1. removeClient ch s = Inr s1" by blast
next
  fix s1 assume r: "removeClient ch s = Inr s1"
  from removeClient_returns [OF r] have o: "ch < length (chans s)" "\<not> closed (chans s ! ch)"
    by simp_all
  from removeClient_open [OF assms o] r have
    s1: "hub_inv s1" "clients s1 = AList.delete ch (clients s)"
        "chans s1 = (chans s)[ch := (chans s ! ch)\<lparr>closed := True\<rparr>]"
    by auto
  from o(1) s1(3) have c: "ch < length (chans s1)" "closed (chans s1 ! ch)" by simp_all
  show "ch \<notin> registered s1"
    using s1(2) by (simp add: registered_def delete_keys)
  fix ops assume a: "admissible s1 ops \<and> Receive ch \<notin> set ops"
  from run_admissible [OF s1(1)] a obtain s2 where s2: "run s1 ops = Inr s2" by blast
  from run_closed_frame [OF s2 c] a have "chans s2 ! ch = chans s1 ! ch" by simp
  with s2 show "\<exists>s2. run s1 ops = Inr s2 \<and> chans s2 ! ch = chans s1 ! ch \<and>
                  queue_of ch s2 = queue_of ch s1"
    by (simp add: queue_of_def)
qed

lemma hub_inv_one_sink: "hub_inv one_sink"
  by (simp add: hub_inv_def registered_def one_sink_def sink_ok_def)

theorem no_enqueue_after_unregister_witness:
  "hub_inv one_sink \<and> 0 \<in> registered one_sink \<and>
   removeClient 0 one_sink = Inr one_sink_removed \<and>
   admissible one_sink_removed [Broadcast sample_message, MakeChan, AddClient 1, Broadcast sample_message] \<and>
   (\<exists>s2. run one_sink_removed [Broadcast sample_message, MakeChan, AddClient 1, Broadcast sample_message] = Inr s2 \<and>
      queue_of 0 s2 = [sample_message] \<and> queue_of 1 s2 = [sample_message])"
proof -
  let ?ops = "[Broadcast sample_message, MakeChan, AddClient 1, Broadcast sample_message]"
  have r: "0 \<in> registered one_sink" by (simp add: registered_def one_sink_def)
  have e: "removeClient 0 one_sink = Inr one_sink_removed"
    by (simp add: removeClient_def close_chan_def one_sink_def one_sink_removed_def)
  have a: "admissible one_sink_removed ?ops"
    by (simp add: one_sink_removed_def broadcast_def make_chan_def addClient_def registered_def
        try_send_def)
  have n: "Receive 0 \<notin> set ?ops" by simp
  have b: "map_sum id (queue_of 1) (run one_sink_removed ?ops) = Inr [sample_message]"
    by (simp add: one_sink_removed_def broadcast_def make_chan_def addClient_def try_send_def
        queue_of_def)
  from no_enqueue_after_unregister [OF hub_inv_one_sink, of 0] e have
    f: "\<forall>ops. admissible one_sink_removed ops \<and> Receive 0 \<notin> set ops \<longrightarrow>
              (\<exists>s2. run one_sink_removed ops = Inr s2 \<and>
                 chans s2 ! 0 = chans one_sink_removed ! 0 \<and>
                 queue_of 0 s2 = queue_of 0 one_sink_removed)"
    by blast
  from f [rule_format, of ?ops] a n obtain s2 where
    s2: "run one_sink_removed ?ops = Inr s2" "queue_of 0 s2 = queue_of 0 one_sink_removed"
    by blast
  from s2(2) have "queue_of 0 s2 = [sample_message]"
    by (simp add: one_sink_removed_def queue_of_def)
  moreover from b s2(1) have "queue_of 1 s2 = [sample_message]" by simp
  ultimately show ?thesis using hub_inv_one_sink r e a s2(1) by blast
qed

text \<open>
  Claim C2, amended. \<^verbatim>\<open>removeClient\<close> of a registered sink returns. Whenever
  \<^verbatim>\<open>removeClient\<close> of a sink has returned, the sink is out of the registry, its channel is
  closed and the counter is one less; a second \<^verbatim>\<open>removeClient\<close> of the same sink does not
  return: \<^verbatim>\<open>close\<close> panics on the closed channel.
\<close>

theorem second_unregister_panics:
  "(hub_inv s \<and> ch \<in> registered s \<longrightarrow> (\<exists>s1. removeClient ch s = Inr s1)) \<and>
   (\<forall>s1. removeClient ch s = Inr s1 \<longrightarrow>
      ch \<notin> registered s1 \<and> closed (chans s1 ! ch) \<and>
      activeTraders s1 = activeTraders s - 1 \<and>
      removeClient ch s1 = Inl CloseOfClosedChannel)"
proof (intro conjI allI impI)
  assume "hub_inv s \<and> ch \<in> registered s"
  with removeClient_registered [of s ch] show "\<exists>s1. removeClient ch s = Inr s1" by blast
next
  fix s1 assume r: "removeClient ch s = Inr s1"
  from removeClient_returns [OF r] have o: "ch < length (chans s)" "\<not> closed (chans s ! ch)"
    by simp_all
  with r have s1: "s1 = s\<lparr>clients := AList.delete ch (clients s),
      chans := (chans s)[ch := (chans s ! ch)\<lparr>closed := True\<rparr>],
      activeTraders := activeTraders s - 1\<rparr>"
    by (simp add: removeClient_def close_chan_def)
  show "ch \<notin> registered s1"
    unfolding s1 by (simp add: registered_def delete_keys)
  from o(1) show c: "closed (chans s1 ! ch)"
    unfolding s1 by simp
  show "activeTraders s1 = activeTraders s - 1"
    unfolding s1 by simp
  from o(1) have "ch < length (chans s1)" unfolding s1 by simp
  with c show "removeClient ch s1 = Inl CloseOfClosedChannel"
    by (simp add: removeClient_def close_chan_def)
qed

theorem second_unregister_panics_witness:
  "hub_inv one_sink \<and> 0 \<in> registered one_sink \<and>
   removeClient 0 one_sink = Inr one_sink_removed \<and>
   0 \<notin> registered one_sink_removed \<and>
   activeTraders one_sink_removed = activeTraders one_sink - 1 \<and>
   removeClient 0 one_sink_removed = Inl CloseOfClosedChannel"
proof -
  have r: "0 \<in> registered one_sink" by (simp add: registered_def one_sink_def)
  have e: "removeClient 0 one_sink = Inr one_sink_removed"
    by (simp add: removeClient_def close_chan_def one_sink_def one_sink_removed_def)
  from second_unregister_panics [of one_sink 0] e have
    "0 \<notin> registered one_sink_removed"
    "activeTraders one_sink_removed = activeTraders one_sink - 1"
    "removeClient 0 one_sink_removed = Inl CloseOfClosedChannel"
    by blast+
  with e hub_inv_one_sink r show ?thesis by blast
qed

text \<open>
  The claim as stated: the second call is a no-op that returns. It is a panic.
\<close>

theorem second_unregister_counterexample:
  "removeClient 0 one_sink = Inr one_sink_removed \<and>
   removeClient 0 one_sink_removed = Inl CloseOfClosedChannel"
  by (simp add: removeClient_def close_chan_def one_sink_def one_sink_removed_def)

section \<open>Properties of the floating-point arithmetic\<close>

lemma nearest_aux:
  fixes r x a b :: real
  assumes "a \<le> x" "x < a + 1"
    and "r = a \<and> x - a \<le> 1 / 2 \<or> r = a + 1 \<and> 1 / 2 \<le> x - a"
  shows "\<bar>r - x\<bar> \<le> 1 / 2" and "b \<le> a \<or> a + 1 \<le> b \<Longrightarrow> \<bar>r - x\<bar> \<le> \<bar>b - x\<bar>"
  using assms by (auto simp: abs_if split: if_splits)

lemma round_even_cases:
  "real_of_int (round_even x) = of_int \<lfloor>x\<rfloor> \<and> x - of_int \<lfloor>x\<rfloor> \<le> 1 / 2 \<or>
   real_of_int (round_even x) = of_int \<lfloor>x\<rfloor> + 1 \<and> 1 / 2 \<le> x - of_int \<lfloor>x\<rfloor>"
  unfolding round_even_def by (cases "x - of_int \<lfloor>x\<rfloor> < 1 / 2") auto

lemma round_even_half: "\<bar>of_int (round_even x) - x\<bar> \<le> 1 / 2"
proof (rule nearest_aux(1))
  show "real_of_int \<lfloor>x\<rfloor> \<le> x" by linarith
  show "x < real_of_int \<lfloor>x\<rfloor> + 1" by linarith
  show "real_of_int (round_even x) = of_int \<lfloor>x\<rfloor> \<and> x - of_int \<lfloor>x\<rfloor> \<le> 1 / 2 \<or>
   real_of_int (round_even x) = of_int \<lfloor>x\<rfloor> + 1 \<and> 1 / 2 \<le> x - of_int \<lfloor>x\<rfloor>"
    by (rule round_even_cases)
qed

lemma round_even_nearest: "\<bar>of_int (round_even x) - x\<bar> \<le> \<bar>of_int n - x\<bar>"
proof (rule nearest_aux(2))
  show "real_of_int \<lfloor>x\<rfloor> \<le> x" by linarith
  show "x < real_of_int \<lfloor>x\<rfloor> + 1" by linarith
  show "real_of_int (round_even x) = of_int \<lfloor>x\<rfloor> \<and> x - of_int \<lfloor>x\<rfloor> \<le> 1 / 2 \<or>
   real_of_int (round_even x) = of_int \<lfloor>x\<rfloor> + 1 \<and> 1 / 2 \<le> x - of_int \<lfloor>x\<rfloor>"
    by (rule round_even_cases)
  have "n \<le> \<lfloor>x\<rfloor> \<or> \<lfloor>x\<rfloor> + 1 \<le> n" by linarith
  then show "real_of_int n \<le> of_int \<lfloor>x\<rfloor> \<or> real_of_int \<lfloor>x\<rfloor> + 1 \<le> of_int n"
    by (metis of_int_1 of_int_add of_int_le_iff)
qed

lemma binade:
  assumes "x \<noteq> 0"
  shows "2 powr of_int \<lfloor>log 2 \<bar>x\<bar>\<rfloor> \<le> \<bar>x\<bar>" "\<bar>x\<bar> < 2 powr of_int (\<lfloor>log 2 \<bar>x\<bar>\<rfloor> + 1)"
proof -
  from assms have "0 < \<bar>x\<bar>" by simp
  with floor_log_eq_powr_iff [of "\<bar>x\<bar>" 2 "\<lfloor>log 2 \<bar>x\<bar>\<rfloor>"]
  show "2 powr of_int \<lfloor>log 2 \<bar>x\<bar>\<rfloor> \<le> \<bar>x\<bar>" "\<bar>x\<bar> < 2 powr of_int (\<lfloor>log 2 \<bar>x\<bar>\<rfloor> + 1)"
    by simp_all
qed

lemma ulp_exp_eq:
  assumes "2 powr of_int k \<le> \<bar>x\<bar>" "\<bar>x\<bar> < 2 powr of_int (k + 1)"
  shows "ulp_exp x = max (k - 52) (- 1074)"
proof -
  have "(0 :: real) < 2 powr of_int k" by simp
  from this assms(1) have "0 < \<bar>x\<bar>" by (rule less_le_trans)
  then have "\<lfloor>log 2 \<bar>x\<bar>\<rfloor> = k"
    using assms by (subst floor_log_eq_powr_iff) simp_all
  then show ?thesis by (simp add: ulp_exp_def)
qed

lemma float64_multiple:
  "float64 x = of_int (round_even (x / 2 powr of_int (ulp_exp x))) * 2 powr of_int (ulp_exp x)"
  by (simp add: float64_def round_even_def)

lemma float64_half_ulp: "\<bar>float64 x - x\<bar> \<le> 2 powr of_int (ulp_exp x) / 2"
proof -
  define g :: real where "g = 2 powr of_int (ulp_exp x)"
  have g: "0 < g" unfolding g_def by simp
  have "float64 x - x = (of_int (round_even (x / g)) - x / g) * g"
    using g by (simp add: float64_multiple g_def field_simps)
  then have "\<bar>float64 x - x\<bar> = \<bar>of_int (round_even (x / g)) - x / g\<bar> * g"
    using g by (simp add: abs_mult)
  also have "\<dots> \<le> 1 / 2 * g"
    using g round_even_half [of "x / g"] by (intro mult_right_mono) simp_all
  finally show ?thesis by (simp add: g_def)
qed

lemma float64_nearest_multiple:
  "\<bar>float64 x - x\<bar> \<le> \<bar>of_int n * 2 powr of_int (ulp_exp x) - x\<bar>"
proof -
  define g :: real where "g = 2 powr of_int (ulp_exp x)"
  have g: "0 < g" unfolding g_def by simp
  have "float64 x - x = (of_int (round_even (x / g)) - x / g) * g"
    using g by (simp add: float64_multiple g_def field_simps)
  then have "\<bar>float64 x - x\<bar> = \<bar>of_int (round_even (x / g)) - x / g\<bar> * g"
    using g by (simp add: abs_mult)
  also have "\<dots> \<le> \<bar>of_int n - x / g\<bar> * g"
    using g round_even_nearest [of "x / g" n] by (intro mult_right_mono) simp_all
  also have "\<dots> = \<bar>(of_int n - x / g) * g\<bar>"
    using g by (simp add: abs_mult)
  also have "(of_int n - x / g) * g = of_int n * g - x"
    using g by (simp add: field_simps)
  finally show ?thesis by (simp add: g_def)
qed

lemma float64_error: "fl_error (1 / 2 ^ 53) (1 / 2 ^ 1075) float64"
proof -
  have "\<bar>float64 x - x\<bar> \<le> 1 / 2 ^ 53 * \<bar>x\<bar> + 1 / 2 ^ 1075" for x
  proof (cases "x = 0")
    case True
    then show ?thesis by (simp add: float64_def)
  next
    case False
    define k where "k = \<lfloor>log 2 \<bar>x\<bar>\<rfloor>"
    from binade(1) [OF False] have lo: "2 powr of_int k \<le> \<bar>x\<bar>" by (simp add: k_def)
    have h: "\<bar>float64 x - x\<bar> \<le> 2 powr of_int (ulp_exp x) / 2" by (rule float64_half_ulp)
    show ?thesis
    proof (cases "- 1074 \<le> k - 52")
      case True
      then have "ulp_exp x = k - 52" by (simp add: ulp_exp_def k_def)
      then have "(2 :: real) powr of_int (ulp_exp x) / 2 = 2 powr of_int k / 2 ^ 53"
        by (simp add: powr_diff)
      also have "\<dots> \<le> \<bar>x\<bar> / 2 ^ 53" using lo by (intro divide_right_mono) simp_all
      finally have "2 powr of_int (ulp_exp x) / 2 \<le> 1 / 2 ^ 53 * \<bar>x\<bar>" by simp
      with h have "\<bar>float64 x - x\<bar> \<le> 1 / 2 ^ 53 * \<bar>x\<bar>" by (rule order_trans)
      then show ?thesis by (rule order_trans) simp
    next
      case False
      then have "ulp_exp x = - 1074" by (simp add: ulp_exp_def k_def)
      then have "(2 :: real) powr of_int (ulp_exp x) / 2 = 1 / 2 ^ 1075"
        by (simp add: powr_neg_numeral)
      with h have "\<bar>float64 x - x\<bar> \<le> 1 / 2 ^ 1075" by simp
      then show ?thesis by (rule order_trans) simp
    qed
  qed
  then show ?thesis by (simp add: fl_error_def)
qed

lemma binary64_I: "\<bar>m\<bar> \<le> 2 ^ 53 \<Longrightarrow> - 1074 \<le> e \<Longrightarrow> of_int m * 2 powr of_int e \<in> binary64"
  unfolding binary64_def by blast

lemma zero_binary64: "0 \<in> binary64"
  using binary64_I [of 0 0] by simp

lemma float64_binary64: "float64 x \<in> binary64"
proof (cases "x = 0")
  case True
  then show ?thesis by (simp add: float64_def zero_binary64)
next
  case False
  define k where "k = \<lfloor>log 2 \<bar>x\<bar>\<rfloor>"
  define e where "e = ulp_exp x"
  define g :: real where "g = 2 powr of_int e"
  have g: "0 < g" by (simp add: g_def)
  from binade(2) [OF False] have hi: "\<bar>x\<bar> < 2 powr of_int (k + 1)" by (simp add: k_def)
  have e: "k - 52 \<le> e" "- 1074 \<le> e" by (simp_all add: e_def ulp_exp_def k_def)
  have "(2 :: real) powr of_int (k + 1) \<le> 2 powr of_int (e + 53)"
    using e(1) by (intro powr_mono) simp_all
  also have "\<dots> = 2 ^ 53 * g"
    by (simp add: g_def powr_add)
  finally have "\<bar>x\<bar> < 2 ^ 53 * g" using hi by linarith
  then have "\<bar>x / g\<bar> < 2 ^ 53" using g by (simp add: field_simps)
  moreover have "\<bar>of_int (round_even (x / g)) - x / g\<bar> \<le> 1 / 2" by (rule round_even_half)
  ultimately have "\<bar>real_of_int (round_even (x / g))\<bar> < 2 ^ 53 + 1" by linarith
  then have "\<bar>round_even (x / g)\<bar> < 2 ^ 53 + 1"
    by (metis (mono_tags, opaque_lifting) of_int_1 of_int_abs of_int_add of_int_less_iff
        of_int_numeral of_int_power)
  then have m: "\<bar>round_even (x / g)\<bar> \<le> 2 ^ 53" by simp
  have "float64 x = of_int (round_even (x / g)) * 2 powr of_int e"
    by (simp add: float64_multiple g_def e_def)
  with binary64_I [OF m e(2)] show ?thesis by simp
qed

lemma float64_nearest:
  assumes "y \<in> binary64"
  shows "\<bar>float64 x - x\<bar> \<le> \<bar>y - x\<bar>"
proof (cases "x = 0")
  case True
  then show ?thesis by (simp add: float64_def)
next
  case False
  from assms obtain m e' where y: "y = of_int m * 2 powr of_int e'"
    and m: "\<bar>m\<bar> \<le> 2 ^ 53" and e': "- 1074 \<le> e'"
    unfolding binary64_def by blast
  define k where "k = \<lfloor>log 2 \<bar>x\<bar>\<rfloor>"
  define e where "e = ulp_exp x"
  define g :: real where "g = 2 powr of_int e"
  have g: "0 < g" by (simp add: g_def)
  from binade [OF False] have lo: "2 powr of_int k \<le> \<bar>x\<bar>"
    by (simp_all add: k_def)
  have near: "\<bar>float64 x - x\<bar> \<le> \<bar>of_int n * g - x\<bar>" for n
    unfolding g_def e_def by (rule float64_nearest_multiple)
  show ?thesis
  proof (cases "e \<le> e'")
    case True
    then obtain d where d: "e' = e + int d"
      by (metis nonneg_int_cases diff_ge_0_iff_ge add_diff_cancel_left' add.commute diff_add_cancel)
    have "(2 :: real) powr of_int e' = 2 ^ d * g"
      by (simp add: d g_def powr_add powr_realpow)
    then have "y = of_int (m * 2 ^ d) * g" by (simp add: y)
    with near [of "m * 2 ^ d"] show ?thesis by simp
  next
    case False
    then have lt: "e' + 1 \<le> e" by simp
    with e' have "- 1074 < e" by simp
    then have ek: "e = k - 52" by (simp add: e_def ulp_exp_def k_def split: if_splits)
    have "\<bar>y\<bar> = real_of_int \<bar>m\<bar> * 2 powr of_int e'"
      by (simp add: y abs_mult)
    also have "\<dots> \<le> 2 ^ 53 * 2 powr of_int e'"
    proof (rule mult_right_mono)
      from m have "real_of_int \<bar>m\<bar> \<le> real_of_int (2 ^ 53)" by (simp only: of_int_le_iff)
      then show "real_of_int \<bar>m\<bar> \<le> 2 ^ 53" by simp
    qed simp
    also have "\<dots> \<le> 2 ^ 53 * 2 powr of_int (k - 53)"
      using lt ek by (intro mult_left_mono powr_mono) simp_all
    also have "\<dots> = 2 powr of_int k"
      by (simp add: powr_diff)
    finally have yk: "\<bar>y\<bar> \<le> 2 powr of_int k" .
    have pk: "(2 :: real) powr of_int k = of_int (2 ^ 52) * g"
      by (simp add: g_def ek powr_diff)
    from near [of "2 ^ 52"] near [of "- (2 ^ 52)"]
    have n1: "\<bar>float64 x - x\<bar> \<le> \<bar>2 powr of_int k - x\<bar>"
      and n2: "\<bar>float64 x - x\<bar> \<le> \<bar>- (2 powr of_int k) - x\<bar>"
      unfolding pk by simp_all
    show ?thesis
    proof (cases "0 < x")
      case True
      with lo yk have "y \<le> 2 powr of_int k" "2 powr of_int k \<le> x" by (simp_all add: abs_if split: if_splits)
      then have "\<bar>2 powr of_int k - x\<bar> \<le> \<bar>y - x\<bar>" by (simp add: abs_if)
      with n1 show ?thesis by (rule order_trans)
    next
      case False
      with \<open>x \<noteq> 0\<close> lo yk have "- (2 powr of_int k) \<le> y" "x \<le> - (2 powr of_int k)"
        by (simp_all add: abs_if split: if_splits)
      then have "\<bar>- (2 powr of_int k) - x\<bar> \<le> \<bar>y - x\<bar>" by (simp add: abs_if)
      with n2 show ?thesis by (rule order_trans)
    qed
  qed
qed

lemma rounds_to_nearest_float64: "rounds_to_nearest binary64 float64"
  unfolding rounds_to_nearest_def
  using zero_binary64 float64_binary64 float64_nearest by blast

lemma float64_representable:
  assumes "x \<in> binary64"
  shows "float64 x = x"
  using float64_nearest [OF assms, of x] by simp

lemma float64_eval:
  assumes "2 powr of_int k \<le> \<bar>x\<bar>" "\<bar>x\<bar> < 2 powr of_int (k + 1)"
  shows "float64 x =
    of_int (round_even (x / 2 powr of_int (max (k - 52) (- 1074)))) *
      2 powr of_int (max (k - 52) (- 1074))"
  unfolding float64_multiple [of x] ulp_exp_eq [OF assms] ..

text \<open>
  Evaluation: \<open>float64_eval\<close> for the binades that occur below, and the doubles nearest to
  some decimal numbers.
\<close>

lemmas float64_binades =
  float64_eval [where k = "- 13"] float64_eval [where k = "- 6"] float64_eval [where k = "- 2"]
  float64_eval [where k = "- 1"] float64_eval [where k = 0] float64_eval [where k = 1]
  float64_eval [where k = 5]

lemma float64_35_8: "float64 (358 / 10) = 5038402083120742 / 2 ^ 47"
  by (simp add: float64_eval [where k = 5] round_even_def powr_neg_numeral)

lemma float64_0_02: "float64 (- 2 / 100) = - 5764607523034235 / 2 ^ 58"
  by (simp add: float64_eval [where k = "- 6"] round_even_def powr_neg_numeral)

lemma float64_0_0002: "float64 (2 / 10000) = 7378697629483821 / 2 ^ 65"
  by (simp add: float64_eval [where k = "- 13"] round_even_def powr_neg_numeral)

lemma float64_0_35: "float64 (35 / 100) = 3152519739159347 / 2 ^ 53"
  by (simp add: float64_eval [where k = "- 2"] round_even_def powr_neg_numeral)

section \<open>The market simulation\<close>

lemma nearest_abs_le:
  assumes "rounds_to_nearest F fl"
  shows "\<bar>fl x\<bar> \<le> 2 * \<bar>x\<bar>"
proof -
  from assms have "\<bar>fl x - x\<bar> \<le> \<bar>0 - x\<bar>"
    unfolding rounds_to_nearest_def by blast
  then show ?thesis by simp
qed

lemma nearest_close:
  assumes "rounds_to_nearest F fl" "y \<in> F"
  shows "\<bar>fl x - x\<bar> \<le> \<bar>y - x\<bar>"
  using assms unfolding rounds_to_nearest_def by blast

lemma nearest_in:
  assumes "rounds_to_nearest F fl"
  shows "fl x \<in> F"
  using assms unfolding rounds_to_nearest_def by blast

lemma rounded_price_positive:
  assumes n: "rounds_to_nearest F fl" and p: "p \<in> F" "0 < p" and r: "0 \<le> r" "r < 1"
  shows "0 < fl (p + fl (p * fl (fl (fl (r - 1 / 2) * 4) / 100)))"
proof -
  define a where "a = fl (r - 1 / 2)"
  define b where "b = fl (a * 4)"
  define c where "c = fl (b / 100)"
  define d where "d = fl (p * c)"
  have "\<bar>a\<bar> \<le> 2 * \<bar>r - 1 / 2\<bar>" unfolding a_def by (rule nearest_abs_le [OF n])
  with r have a: "\<bar>a\<bar> \<le> 1" by (auto simp: abs_if split: if_splits)
  have "\<bar>b\<bar> \<le> 2 * \<bar>a * 4\<bar>" unfolding b_def by (rule nearest_abs_le [OF n])
  with a have b: "\<bar>b\<bar> \<le> 8" by (auto simp: abs_if split: if_splits)
  have "\<bar>c\<bar> \<le> 2 * \<bar>b / 100\<bar>" unfolding c_def by (rule nearest_abs_le [OF n])
  with b have c: "\<bar>c\<bar> \<le> 16 / 100" by (auto simp: abs_if split: if_splits)
  have "\<bar>d\<bar> \<le> 2 * \<bar>p * c\<bar>" unfolding d_def by (rule nearest_abs_le [OF n])
  also have "\<bar>p * c\<bar> = p * \<bar>c\<bar>" using p by (simp add: abs_mult)
  also have "p * \<bar>c\<bar> \<le> p * (16 / 100)" using c p by (intro mult_left_mono) simp_all
  finally have d: "\<bar>d\<bar> \<le> 32 / 100 * p" by (auto simp: abs_if split: if_splits)
  have "\<bar>fl (p + d) - (p + d)\<bar> \<le> \<bar>p - (p + d)\<bar>"
    by (rule nearest_close [OF n p(1)])
  then have "fl (p + d) \<ge> p + d - \<bar>d\<bar>" by (auto simp: abs_if split: if_splits)
  with d p have "fl (p + d) \<ge> 36 / 100 * p" by (auto simp: abs_if split: if_splits)
  with p have "0 < fl (p + d)" by (auto simp: abs_if split: if_splits)
  then show ?thesis by (simp add: a_def b_def c_def d_def)
qed

lemma Price_updateCrypto:
  "Price (updateCrypto fl r1 r2 r3 c) =
     fl (Price c + fl (Price c * fl (fl (fl (r1 - 1 / 2) * 4) / 100)))"
  by (simp add: updateCrypto_def Let_def)

lemma Change24h_updateCrypto:
  "Change24h (updateCrypto fl r1 r2 r3 c) =
     max (- 20) (min 20 (fl (Change24h c + fl (fl (r2 - 1 / 2) * (1 / 2)))))"
  by (simp add: updateCrypto_def Let_def)

lemma High24h_updateCrypto:
  "High24h (updateCrypto fl r1 r2 r3 c) = max (High24h c) (Price (updateCrypto fl r1 r2 r3 c))"
  by (simp add: updateCrypto_def Let_def max_def)

lemma Low24h_updateCrypto:
  "Low24h (updateCrypto fl r1 r2 r3 c) = min (Low24h c) (Price (updateCrypto fl r1 r2 r3 c))"
  by (simp add: updateCrypto_def Let_def min_def)

lemma Symbol_updateCrypto:
  "Symbol (updateCrypto fl r1 r2 r3 c) = Symbol c \<and> Name (updateCrypto fl r1 r2 r3 c) = Name c"
  by (simp add: updateCrypto_def Let_def)

lemma updatePrices_loop_result:
  assumes "distinct syms" "set syms \<subseteq> set (map fst m)"
  shows "\<exists>m'. updatePrices_loop fl rnd n syms m = Inr m' \<and> map fst m' = map fst m \<and>
           (\<forall>sym c. map_of m sym = Some c \<longrightarrow>
              (if sym \<in> set syms
               then \<exists>k. map_of m' sym = Some (updateCrypto fl (rnd k) (rnd (Suc k)) (rnd (Suc (Suc k))) c)
               else map_of m' sym = Some c))"
  using assms
proof (induction syms arbitrary: n m)
  case Nil
  then show ?case by simp
next
  case (Cons sym0 rest)
  from Cons.prems have in_keys: "sym0 \<in> set (map fst m)" and fresh: "sym0 \<notin> set rest"
    and d: "distinct rest" and sub: "set rest \<subseteq> set (map fst m)"
    by auto
  from in_keys obtain c0 where c0: "map_of m sym0 = Some c0"
    by (metis map_of_eq_None_iff not_Some_eq set_map)
  let ?u = "updateCrypto fl (rnd n) (rnd (Suc n)) (rnd (Suc (Suc n))) c0"
  let ?m1 = "AList.update sym0 ?u m"
  have keys1: "map fst ?m1 = map fst m"
    using in_keys by (simp add: update_keys)
  have look1: "map_of ?m1 = (map_of m)(sym0 \<mapsto> ?u)"
    by (rule update_conv')
  from sub keys1 have sub1: "set rest \<subseteq> set (map fst ?m1)" by simp
  from Cons.IH [OF d sub1, of "n + 3"] obtain m' where
    m': "updatePrices_loop fl rnd (n + 3) rest ?m1 = Inr m'" "map fst m' = map fst ?m1"
    and rel: "\<forall>sym c. map_of ?m1 sym = Some c \<longrightarrow>
              (if sym \<in> set rest
               then \<exists>k. map_of m' sym = Some (updateCrypto fl (rnd k) (rnd (Suc k)) (rnd (Suc (Suc k))) c)
               else map_of m' sym = Some c)"
    by blast
  have run: "updatePrices_loop fl rnd n (sym0 # rest) m = Inr m'"
    using c0 m'(1) by simp
  have "if sym \<in> set (sym0 # rest)
        then \<exists>k. map_of m' sym = Some (updateCrypto fl (rnd k) (rnd (Suc k)) (rnd (Suc (Suc k))) c)
        else map_of m' sym = Some c"
    if look: "map_of m sym = Some c" for sym c
  proof (cases "sym = sym0")
    case True
    with look c0 have "c = c0" by simp
    moreover from rel fresh look1 have "map_of m' sym0 = Some ?u" by simp
    ultimately show ?thesis using True by auto
  next
    case False
    with look look1 have "map_of ?m1 sym = Some c" by simp
    with rel False show ?thesis by simp
  qed
  with run m'(2) keys1 show ?case by simp
qed

lemma distinct_symbols: "distinct symbols"
  by (simp add: symbols_def)

lemma hub_inv_cryptos_update [simp]: "hub_inv (s\<lparr>cryptos := m\<rparr>) = hub_inv s"
  by (simp add: hub_inv_def registered_def)

lemma hub_inv_stats_update [simp]:
  "hub_inv (s\<lparr>totalTrades := n, totalVolume := v\<rparr>) = hub_inv s"
  by (simp add: hub_inv_def registered_def)

lemma broadcast_frame:
  assumes "broadcast msg s = Inr s'"
  shows "cryptos s' = cryptos s \<and> clients s' = clients s \<and> totalTrades s' = totalTrades s \<and>
         totalVolume s' = totalVolume s \<and> activeTraders s' = activeTraders s"
  using assms by (auto simp: broadcast_def split: sum.splits)

lemma updatePrices_result:
  assumes "hub_inv s" "tracked s"
  shows "\<exists>s'. updatePrices fl rnd s = Inr s' \<and> hub_inv s' \<and> tracked s' \<and>
           (\<forall>sym \<in> set symbols. \<exists>c k. map_of (cryptos s) sym = Some c \<and>
              map_of (cryptos s') sym = Some (updateCrypto fl (rnd k) (rnd (Suc k)) (rnd (Suc (Suc k))) c))"
proof -
  from assms(2) have sub: "set symbols \<subseteq> set (map fst (cryptos s))"
    by (simp add: tracked_def)
  from updatePrices_loop_result [OF distinct_symbols sub, of fl rnd 0] obtain m' where
    m': "updatePrices_loop fl rnd 0 symbols (cryptos s) = Inr m'" "map fst m' = map fst (cryptos s)"
    and rel: "\<forall>sym c. map_of (cryptos s) sym = Some c \<longrightarrow>
              (if sym \<in> set symbols
               then \<exists>k. map_of m' sym = Some (updateCrypto fl (rnd k) (rnd (Suc k)) (rnd (Suc (Suc k))) c)
               else map_of m' sym = Some c)"
    by blast
  let ?s1 = "s\<lparr>cryptos := m'\<rparr>"
  let ?msg = "\<lparr>Event = ''prices'', Data = CryptoListData (getCryptoList ?s1)\<rparr>"
  from assms(1) have "hub_inv ?s1" by simp
  from broadcast_registered [OF this, of ?msg] obtain s' where
    s': "broadcast ?msg ?s1 = Inr s'" "hub_inv s'" by blast
  from broadcast_frame [OF s'(1)] have cr: "cryptos s' = m'" by simp
  have u: "updatePrices fl rnd s = Inr s'"
    using m'(1) s'(1) by (simp add: updatePrices_def)
  have t: "tracked s'"
    using sub m'(2) cr by (simp add: tracked_def)
  have "\<exists>c k. map_of (cryptos s) sym = Some c \<and>
              map_of (cryptos s') sym = Some (updateCrypto fl (rnd k) (rnd (Suc k)) (rnd (Suc (Suc k))) c)"
    if "sym \<in> set symbols" for sym
  proof -
    from that sub obtain c where c: "map_of (cryptos s) sym = Some c"
      by (metis map_of_eq_None_iff not_Some_eq set_map subsetD)
    with rel that cr show ?thesis by auto
  qed
  with u s'(2) t show ?thesis by blast
qed

lemma price_ticks_rel:
  assumes inv: "hub_inv s" "tracked s"
    and refl: "\<And>c. R c c"
    and trans: "\<And>c c' c''. R c c' \<Longrightarrow> R c' c'' \<Longrightarrow> R c c''"
    and tick: "\<And>rnd k c. rnd \<in> set rnds \<Longrightarrow> R c (updateCrypto fl (rnd k) (rnd (Suc k)) (rnd (Suc (Suc k))) c)"
  shows "\<exists>s'. price_ticks fl rnds s = Inr s' \<and> hub_inv s' \<and> tracked s' \<and>
           (\<forall>sym \<in> set symbols. \<exists>c c'. map_of (cryptos s) sym = Some c \<and>
              map_of (cryptos s') sym = Some c' \<and> R c c')"
  using inv tick
proof (induction rnds arbitrary: s)
  case Nil
  have "\<exists>c c'. map_of (cryptos s) sym = Some c \<and> map_of (cryptos s) sym = Some c' \<and> R c c'"
    if "sym \<in> set symbols" for sym
  proof -
    from that Nil.prems(2) obtain c where "map_of (cryptos s) sym = Some c"
      unfolding tracked_def by (metis map_of_eq_None_iff not_Some_eq set_map subsetD)
    with refl show ?thesis by blast
  qed
  with Nil.prems show ?case by simp
next
  case (Cons rnd rnds)
  from updatePrices_result [OF Cons.prems(1,2), of fl rnd] obtain s1 where
    s1: "updatePrices fl rnd s = Inr s1" "hub_inv s1" "tracked s1"
    and r1: "\<forall>sym \<in> set symbols. \<exists>c k. map_of (cryptos s) sym = Some c \<and>
              map_of (cryptos s1) sym = Some (updateCrypto fl (rnd k) (rnd (Suc k)) (rnd (Suc (Suc k))) c)"
    by blast
  have tick': "\<And>rnd' k c. rnd' \<in> set rnds \<Longrightarrow>
      R c (updateCrypto fl (rnd' k) (rnd' (Suc k)) (rnd' (Suc (Suc k))) c)"
    using Cons.prems(3) by simp
  from Cons.IH [OF s1(2,3) tick'] obtain s' where
    s': "price_ticks fl rnds s1 = Inr s'" "hub_inv s'" "tracked s'"
    and r2: "\<forall>sym \<in> set symbols. \<exists>c c'. map_of (cryptos s1) sym = Some c \<and>
              map_of (cryptos s') sym = Some c' \<and> R c c'"
    by blast
  have "\<exists>c c'. map_of (cryptos s) sym = Some c \<and> map_of (cryptos s') sym = Some c' \<and> R c c'"
    if sym: "sym \<in> set symbols" for sym
  proof -
    from r1 sym obtain c k where c: "map_of (cryptos s) sym = Some c"
      "map_of (cryptos s1) sym = Some (updateCrypto fl (rnd k) (rnd (Suc k)) (rnd (Suc (Suc k))) c)"
      by blast
    from r2 sym c(2) obtain c' where c': "map_of (cryptos s') sym = Some c'"
      "R (updateCrypto fl (rnd k) (rnd (Suc k)) (rnd (Suc (Suc k))) c) c'"
      by fastforce
    have "R c (updateCrypto fl (rnd k) (rnd (Suc k)) (rnd (Suc (Suc k))) c)"
      by (rule Cons.prems(3)) simp
    from this c'(2) have "R c c'" by (rule trans)
    with c(1) c'(1) show ?thesis by blast
  qed
  with s1(1) s' show ?case by simp
qed

lemma tracked_initial: "tracked initial_state"
  by (simp add: tracked_def symbols_def initial_state_def initial_cryptos_def)

lemma rounds_to_nearest_exact: "rounds_to_nearest UNIV exact"
  by (simp add: rounds_to_nearest_def exact_def)

text \<open>
  Claim C4. In a state of the hub whose map holds the six symbols, \<^verbatim>\<open>updatePrices\<close> returns,
  and afterwards the \<^verbatim>\<open>Change24h\<close> of every symbol lies between -20 and 20, both included:
  whatever it was before the tick, whatever the random draws, however the arithmetic rounds.
\<close>

theorem change24h_clamped:
  assumes "hub_inv s" "tracked s"
  shows "\<exists>s'. updatePrices fl rnd s = Inr s' \<and>
           (\<forall>sym \<in> set symbols. \<exists>c'. map_of (cryptos s') sym = Some c' \<and>
              - 20 \<le> Change24h c' \<and> Change24h c' \<le> 20)"
proof -
  from updatePrices_result [OF assms, of fl rnd] obtain s' where
    s': "updatePrices fl rnd s = Inr s'"
    and r: "\<forall>sym \<in> set symbols. \<exists>c k. map_of (cryptos s) sym = Some c \<and>
              map_of (cryptos s') sym = Some (updateCrypto fl (rnd k) (rnd (Suc k)) (rnd (Suc (Suc k))) c)"
    by blast
  have "\<exists>c'. map_of (cryptos s') sym = Some c' \<and> - 20 \<le> Change24h c' \<and> Change24h c' \<le> 20"
    if "sym \<in> set symbols" for sym
  proof -
    from r that obtain c k where
      "map_of (cryptos s') sym = Some (updateCrypto fl (rnd k) (rnd (Suc k)) (rnd (Suc (Suc k))) c)"
      by blast
    then show ?thesis by (simp add: Change24h_updateCrypto)
  qed
  with s' show ?thesis by blast
qed

lemma BTC_tracked: "''BTC'' \<in> set symbols"
  by (simp add: symbols_def)

lemma BTC_initial:
  "map_of (cryptos initial_state) ''BTC'' =
     Some \<lparr>Symbol = ''BTC'', Name = ''Bitcoin'', Price = 43250, Change24h = 25 / 10,
        Volume = 28500000000, High24h = 44100, Low24h = 42800\<rparr>"
  by (simp add: initial_state_def initial_cryptos_def)

theorem change24h_clamped_witness:
  "hub_inv initial_state \<and> tracked initial_state \<and>
   (\<exists>s' c'. updatePrices exact (\<lambda>n. 0) initial_state = Inr s' \<and>
      map_of (cryptos s') ''BTC'' = Some c' \<and> - 20 \<le> Change24h c' \<and> Change24h c' \<le> 20)"
  using change24h_clamped [OF hub_inv_initial tracked_initial, of exact "\<lambda>n. 0"]
    hub_inv_initial tracked_initial BTC_tracked
  by blast

text \<open>
  Claim C8. After a tick, for every symbol, the high is the maximum of the old high and the
  new price and the low is the minimum of the old low and the new price, so that the new
  price lies between them. Over any number of ticks the high does not fall and the low
  does not rise.
\<close>

theorem extrema_updated:
  assumes "hub_inv s" "tracked s"
  shows "(\<exists>s'. updatePrices fl rnd s = Inr s' \<and>
           (\<forall>sym \<in> set symbols. \<exists>c c'. map_of (cryptos s) sym = Some c \<and>
              map_of (cryptos s') sym = Some c' \<and>
              High24h c' = max (High24h c) (Price c') \<and>
              Low24h c' = min (Low24h c) (Price c') \<and>
              Low24h c' \<le> Price c' \<and> Price c' \<le> High24h c')) \<and>
         (\<exists>s'. price_ticks fl rnds s = Inr s' \<and>
           (\<forall>sym \<in> set symbols. \<exists>c c'. map_of (cryptos s) sym = Some c \<and>
              map_of (cryptos s') sym = Some c' \<and>
              High24h c \<le> High24h c' \<and> Low24h c' \<le> Low24h c))"
proof
  from updatePrices_result [OF assms, of fl rnd] obtain s' where
    s': "updatePrices fl rnd s = Inr s'"
    and r: "\<forall>sym \<in> set symbols. \<exists>c k. map_of (cryptos s) sym = Some c \<and>
              map_of (cryptos s') sym = Some (updateCrypto fl (rnd k) (rnd (Suc k)) (rnd (Suc (Suc k))) c)"
    by blast
  have "\<exists>c c'. map_of (cryptos s) sym = Some c \<and>
              map_of (cryptos s') sym = Some c' \<and>
              High24h c' = max (High24h c) (Price c') \<and>
              Low24h c' = min (Low24h c) (Price c') \<and>
              Low24h c' \<le> Price c' \<and> Price c' \<le> High24h c'"
    if "sym \<in> set symbols" for sym
  proof -
    from r that obtain c k where c: "map_of (cryptos s) sym = Some c"
      "map_of (cryptos s') sym = Some (updateCrypto fl (rnd k) (rnd (Suc k)) (rnd (Suc (Suc k))) c)"
      by blast
    let ?c' = "updateCrypto fl (rnd k) (rnd (Suc k)) (rnd (Suc (Suc k))) c"
    have "High24h ?c' = max (High24h c) (Price ?c')" by (rule High24h_updateCrypto)
    moreover have "Low24h ?c' = min (Low24h c) (Price ?c')" by (rule Low24h_updateCrypto)
    ultimately show ?thesis using c by auto
  qed
  with s' show "\<exists>s'. updatePrices fl rnd s = Inr s' \<and>
           (\<forall>sym \<in> set symbols. \<exists>c c'. map_of (cryptos s) sym = Some c \<and>
              map_of (cryptos s') sym = Some c' \<and>
              High24h c' = max (High24h c) (Price c') \<and>
              Low24h c' = min (Low24h c) (Price c') \<and>
              Low24h c' \<le> Price c' \<and> Price c' \<le> High24h c')"
    by blast
next
  have "\<exists>s'. price_ticks fl rnds s = Inr s' \<and> hub_inv s' \<and> tracked s' \<and>
           (\<forall>sym \<in> set symbols. \<exists>c c'. map_of (cryptos s) sym = Some c \<and>
              map_of (cryptos s') sym = Some c' \<and> extrema_rel c c')"
  proof (rule price_ticks_rel [OF assms])
    show "extrema_rel c c" for c by (simp add: extrema_rel_def)
    show "extrema_rel c c''" if "extrema_rel c c'" "extrema_rel c' c''" for c c' c''
      using that by (auto simp: extrema_rel_def)
    show "extrema_rel c (updateCrypto fl (rnd k) (rnd (Suc k)) (rnd (Suc (Suc k))) c)" for rnd k c
      by (simp add: extrema_rel_def High24h_updateCrypto Low24h_updateCrypto)
  qed
  then show "\<exists>s'. price_ticks fl rnds s = Inr s' \<and>
           (\<forall>sym \<in> set symbols. \<exists>c c'. map_of (cryptos s) sym = Some c \<and>
              map_of (cryptos s') sym = Some c' \<and>
              High24h c \<le> High24h c' \<and> Low24h c' \<le> Low24h c)"
    unfolding extrema_rel_def by blast
qed

theorem extrema_updated_witness:
  "hub_inv initial_state \<and> tracked initial_state \<and>
   (\<exists>s' c'. updatePrices exact (\<lambda>n. 3 / 4) initial_state = Inr s' \<and>
      map_of (cryptos s') ''BTC'' = Some c' \<and>
      High24h c' = max 44100 (Price c') \<and> Low24h c' = min 42800 (Price c') \<and>
      Low24h c' \<le> Price c' \<and> Price c' \<le> High24h c')"
proof -
  from extrema_updated [OF hub_inv_initial tracked_initial, of exact "\<lambda>n. 3 / 4" "[]"]
  obtain s' where s': "updatePrices exact (\<lambda>n. 3 / 4) initial_state = Inr s'"
    and r: "\<forall>sym \<in> set symbols. \<exists>c c'. map_of (cryptos initial_state) sym = Some c \<and>
         map_of (cryptos s') sym = Some c' \<and>
         High24h c' = max (High24h c) (Price c') \<and>
         Low24h c' = min (Low24h c) (Price c') \<and>
         Low24h c' \<le> Price c' \<and> Price c' \<le> High24h c'"
    by blast
  from r BTC_tracked BTC_initial obtain c' where
    "map_of (cryptos s') ''BTC'' = Some c'"
    "High24h c' = max 44100 (Price c')" "Low24h c' = min 42800 (Price c')"
    "Low24h c' \<le> Price c'" "Price c' \<le> High24h c'"
    by fastforce
  with s' hub_inv_initial tracked_initial show ?thesis by blast
qed

lemma updateCrypto_positive:
  assumes "rounds_to_nearest F fl" "0 \<le> r1" "r1 < 1"
  shows "positive_rel F c (updateCrypto fl r1 r2 r3 c)"
  unfolding positive_rel_def Price_updateCrypto
  using rounded_price_positive [OF assms(1) _ _ assms(2,3)] nearest_in [OF assms(1)]
  by blast

lemma fl_error_close:
  assumes "fl_error u eta fl"
  shows "\<bar>fl x - x\<bar> \<le> u * \<bar>x\<bar> + eta"
  using assms unfolding fl_error_def by blast

lemma fl_error_abs:
  assumes "fl_error u eta fl"
  shows "\<bar>fl x\<bar> \<le> \<bar>x\<bar> + u * \<bar>x\<bar> + eta"
  using fl_error_close [OF assms, of x] by (auto simp: abs_if split: if_splits)

lemma rounded_price_within:
  assumes e: "fl_error u eta fl" and u: "u \<le> 1 / 100" and eta: "eta \<le> 1 / 100"
    and p: "0 \<le> p" and r: "0 \<le> r" "r < 1"
  shows "\<bar>fl (p + fl (p * fl (fl (fl (r - 1 / 2) * 4) / 100))) - p\<bar>
           \<le> p * (2 / 100 + 2 * u + 2 * eta) + 3 * eta"
proof -
  from e have u0: "0 \<le> u" and eta0: "0 \<le> eta" by (simp_all add: fl_error_def)
  define a where "a = fl (r - 1 / 2)"
  define b where "b = fl (a * 4)"
  define c where "c = fl (b / 100)"
  define d where "d = fl (p * c)"
  define up where "up = u * p"
  define ep where "ep = eta * p"
  have up0: "0 \<le> up" and ep0: "0 \<le> ep" using u0 eta0 p by (simp_all add: up_def ep_def)
  have ueta: "u * eta \<le> eta / 100"
    using mult_right_mono [OF u eta0] by simp
  \<comment> \<open>a\<close>
  have t: "\<bar>r - 1 / 2\<bar> \<le> 1 / 2" using r by (auto simp: abs_if)
  have "u * \<bar>r - 1 / 2\<bar> \<le> u * (1 / 2)" using t u0 by (rule mult_left_mono)
  with fl_error_abs [OF e, of "r - 1 / 2"] t
  have a: "\<bar>a\<bar> \<le> 1 / 2 + u / 2 + eta" unfolding a_def by simp
  with u eta have a1: "\<bar>a\<bar> \<le> 1" by simp
  \<comment> \<open>b\<close>
  have a4: "\<bar>a * 4\<bar> = 4 * \<bar>a\<bar>" by (simp add: abs_mult)
  have "u * \<bar>a\<bar> \<le> u * 1" using a1 u0 by (rule mult_left_mono)
  with fl_error_abs [OF e, of "a * 4"] a
  have b: "\<bar>b\<bar> \<le> 2 + 6 * u + 5 * eta" unfolding b_def a4 by simp
  with u eta have b3: "\<bar>b\<bar> \<le> 3" by simp
  \<comment> \<open>c\<close>
  have b100: "\<bar>b / 100\<bar> = \<bar>b\<bar> / 100" by simp
  have "u * \<bar>b\<bar> \<le> u * 3" using b3 u0 by (rule mult_left_mono)
  with fl_error_abs [OF e, of "b / 100"] b
  have c: "\<bar>c\<bar> \<le> 2 / 100 + 9 / 100 * u + 105 / 100 * eta" unfolding c_def b100 by simp
  with u eta have c4: "\<bar>c\<bar> \<le> 4 / 100" by simp
  \<comment> \<open>d\<close>
  have pc: "\<bar>p * c\<bar> = p * \<bar>c\<bar>" using p by (simp add: abs_mult)
  have "p * \<bar>c\<bar> \<le> p * (2 / 100 + 9 / 100 * u + 105 / 100 * eta)"
    using c p by (rule mult_left_mono)
  then have pc1: "p * \<bar>c\<bar> \<le> 2 / 100 * p + 9 / 100 * up + 105 / 100 * ep"
    by (simp add: up_def ep_def algebra_simps)
  have pc4: "p * \<bar>c\<bar> \<le> 4 / 100 * p"
    using mult_left_mono [OF c4 p] by simp
  have "u * (p * \<bar>c\<bar>) \<le> u * (4 / 100 * p)" using pc4 u0 by (rule mult_left_mono)
  then have upc: "u * (p * \<bar>c\<bar>) \<le> 4 / 100 * up" by (simp add: up_def)
  from fl_error_abs [OF e, of "p * c"] pc1 upc
  have d: "\<bar>d\<bar> \<le> 2 / 100 * p + 13 / 100 * up + 105 / 100 * ep + eta"
    unfolding d_def pc by linarith
  have "up \<le> p / 100" using mult_right_mono [OF u p] by (simp add: up_def)
  with fl_error_abs [OF e, of "p * c"] pc4 upc p
  have d5: "\<bar>d\<bar> \<le> 5 / 100 * p + eta" unfolding d_def pc by linarith
  \<comment> \<open>the sum\<close>
  have s: "\<bar>p + d\<bar> \<le> 105 / 100 * p + eta" using d5 p by (auto simp: abs_if split: if_splits)
  have "u * \<bar>p + d\<bar> \<le> u * (105 / 100 * p + eta)" using s u0 by (rule mult_left_mono)
  then have us: "u * \<bar>p + d\<bar> \<le> 105 / 100 * up + eta / 100"
    using ueta by (simp add: up_def algebra_simps)
  from fl_error_close [OF e, of "p + d"] us
  have "\<bar>fl (p + d) - (p + d)\<bar> \<le> 105 / 100 * up + eta / 100 + eta" by simp
  with d have "\<bar>fl (p + d) - p\<bar> \<le> 2 / 100 * p + 118 / 100 * up + 105 / 100 * ep + 201 / 100 * eta"
    by (auto simp: abs_if split: if_splits)
  also have "\<dots> \<le> p * (2 / 100 + 2 * u + 2 * eta) + 3 * eta"
    using up0 ep0 eta0 by (simp add: up_def ep_def algebra_simps)
  finally show ?thesis by (simp add: a_def b_def c_def d_def)
qed

text \<open>
  Claim C3, amended. However many ticks run, a price that is a double and strictly
  positive stays a double and strictly positive, for every rounding to nearest and all
  draws in the unit interval. One tick moves a positive price by 2% of itself at most, up
  to the rounding errors of the five operations: for an arithmetic whose roundings err by
  at most \<open>u\<close> times the argument plus \<open>eta\<close>, the change is at most the price times
  \<open>2 / 100 + 2 * u + 2 * eta\<close>, plus \<open>3 * eta\<close>.
\<close>

theorem price_stays_positive:
  assumes "rounds_to_nearest F fl" "\<forall>rnd \<in> set rnds. unit_draws rnd" "unit_draws rnd0"
    "hub_inv s" "tracked s"
  shows "(\<exists>s'. price_ticks fl rnds s = Inr s' \<and>
           (\<forall>sym \<in> set symbols. \<exists>c c'. map_of (cryptos s) sym = Some c \<and>
              map_of (cryptos s') sym = Some c' \<and>
              (Price c \<in> F \<and> 0 < Price c \<longrightarrow> Price c' \<in> F \<and> 0 < Price c'))) \<and>
         (\<forall>u eta. fl_error u eta fl \<and> u \<le> 1 / 100 \<and> eta \<le> 1 / 100 \<longrightarrow>
           (\<exists>s'. updatePrices fl rnd0 s = Inr s' \<and>
             (\<forall>sym \<in> set symbols. \<exists>c c'. map_of (cryptos s) sym = Some c \<and>
                map_of (cryptos s') sym = Some c' \<and>
                (0 < Price c \<longrightarrow>
                   \<bar>Price c' - Price c\<bar> \<le> Price c * (2 / 100 + 2 * u + 2 * eta) + 3 * eta))))"
proof (intro conjI allI impI)
  have "\<exists>s'. price_ticks fl rnds s = Inr s' \<and> hub_inv s' \<and> tracked s' \<and>
           (\<forall>sym \<in> set symbols. \<exists>c c'. map_of (cryptos s) sym = Some c \<and>
              map_of (cryptos s') sym = Some c' \<and> positive_rel F c c')"
  proof (rule price_ticks_rel [OF assms(4,5)])
    show "positive_rel F c c" for c by (simp add: positive_rel_def)
    show "positive_rel F c c''" if "positive_rel F c c'" "positive_rel F c' c''" for c c' c''
      using that by (auto simp: positive_rel_def)
    show "positive_rel F c (updateCrypto fl (rnd k) (rnd (Suc k)) (rnd (Suc (Suc k))) c)"
      if "rnd \<in> set rnds" for rnd k c
    proof -
      from that assms(2) have "0 \<le> rnd k" "rnd k < 1" by (auto simp: unit_draws_def)
      with assms(1) show ?thesis by (rule updateCrypto_positive)
    qed
  qed
  then show "\<exists>s'. price_ticks fl rnds s = Inr s' \<and>
           (\<forall>sym \<in> set symbols. \<exists>c c'. map_of (cryptos s) sym = Some c \<and>
              map_of (cryptos s') sym = Some c' \<and>
              (Price c \<in> F \<and> 0 < Price c \<longrightarrow> Price c' \<in> F \<and> 0 < Price c'))"
    unfolding positive_rel_def by blast
next
  fix u eta assume a: "fl_error u eta fl \<and> u \<le> 1 / 100 \<and> eta \<le> 1 / 100"
  from updatePrices_result [OF assms(4,5), of fl rnd0] obtain s' where
    s': "updatePrices fl rnd0 s = Inr s'"
    and r: "\<forall>sym \<in> set symbols. \<exists>c k. map_of (cryptos s) sym = Some c \<and>
              map_of (cryptos s') sym = Some (updateCrypto fl (rnd0 k) (rnd0 (Suc k)) (rnd0 (Suc (Suc k))) c)"
    by blast
  have "\<exists>c c'. map_of (cryptos s) sym = Some c \<and>
              map_of (cryptos s') sym = Some c' \<and>
              (0 < Price c \<longrightarrow>
                 \<bar>Price c' - Price c\<bar> \<le> Price c * (2 / 100 + 2 * u + 2 * eta) + 3 * eta)"
    if "sym \<in> set symbols" for sym
  proof -
    from r that obtain c k where c: "map_of (cryptos s) sym = Some c"
      "map_of (cryptos s') sym = Some (updateCrypto fl (rnd0 k) (rnd0 (Suc k)) (rnd0 (Suc (Suc k))) c)"
      by blast
    let ?c' = "updateCrypto fl (rnd0 k) (rnd0 (Suc k)) (rnd0 (Suc (Suc k))) c"
    from assms(3) have d: "0 \<le> rnd0 k" "rnd0 k < 1" by (auto simp: unit_draws_def)
    have "\<bar>Price ?c' - Price c\<bar> \<le> Price c * (2 / 100 + 2 * u + 2 * eta) + 3 * eta"
      if pos: "0 < Price c"
    proof -
      from pos have "0 \<le> Price c" by simp
      with a d show ?thesis
        unfolding Price_updateCrypto by (intro rounded_price_within) simp_all
    qed
    with c show ?thesis by blast
  qed
  with s' show "\<exists>s'. updatePrices fl rnd0 s = Inr s' \<and>
             (\<forall>sym \<in> set symbols. \<exists>c c'. map_of (cryptos s) sym = Some c \<and>
                map_of (cryptos s') sym = Some c' \<and>
                (0 < Price c \<longrightarrow>
                   \<bar>Price c' - Price c\<bar> \<le> Price c * (2 / 100 + 2 * u + 2 * eta) + 3 * eta))"
    by blast
qed

lemma unit_draws_zero: "unit_draws zero_draws"
  by (simp add: unit_draws_def zero_draws_def)

lemma BTC_binary64: "(43250 :: real) \<in> binary64"
  using binary64_I [of 43250 0] by simp

theorem price_stays_positive_witness:
  "rounds_to_nearest binary64 float64 \<and> unit_draws zero_draws \<and>
   hub_inv initial_state \<and> tracked initial_state \<and>
   fl_error (1 / 2 ^ 53) (1 / 2 ^ 1075) float64 \<and>
   (\<exists>s' c'. price_ticks float64 [zero_draws, zero_draws] initial_state = Inr s' \<and>
      map_of (cryptos s') ''BTC'' = Some c' \<and> Price c' \<in> binary64 \<and> 0 < Price c') \<and>
   (\<exists>s' c'. updatePrices float64 zero_draws initial_state = Inr s' \<and>
      map_of (cryptos s') ''BTC'' = Some c' \<and>
      \<bar>Price c' - 43250\<bar> \<le> 43250 * (2 / 100 + 2 * (1 / 2 ^ 53) + 2 * (1 / 2 ^ 1075)) + 3 * (1 / 2 ^ 1075))"
proof -
  note u = unit_draws_zero
  then have d: "\<forall>rnd \<in> set [zero_draws, zero_draws]. unit_draws rnd" by simp
  note t = price_stays_positive [OF rounds_to_nearest_float64 d u hub_inv_initial tracked_initial]
  from t obtain s1 where s1: "price_ticks float64 [zero_draws, zero_draws] initial_state = Inr s1"
    and r1: "\<forall>sym \<in> set symbols. \<exists>c c'. map_of (cryptos initial_state) sym = Some c \<and>
         map_of (cryptos s1) sym = Some c' \<and>
         (Price c \<in> binary64 \<and> 0 < Price c \<longrightarrow> Price c' \<in> binary64 \<and> 0 < Price c')"
    by blast
  from r1 BTC_tracked BTC_initial BTC_binary64 obtain c1 where
    c1: "map_of (cryptos s1) ''BTC'' = Some c1" "Price c1 \<in> binary64" "0 < Price c1"
    by fastforce
  have small: "(1 :: real) / 2 ^ 53 \<le> 1 / 100" "(1 :: real) / 2 ^ 1075 \<le> 1 / 100" by simp_all
  from t float64_error small obtain s2 where s2: "updatePrices float64 zero_draws initial_state = Inr s2"
    and r2: "\<forall>sym \<in> set symbols. \<exists>c c'. map_of (cryptos initial_state) sym = Some c \<and>
         map_of (cryptos s2) sym = Some c' \<and>
         (0 < Price c \<longrightarrow>
            \<bar>Price c' - Price c\<bar> \<le> Price c * (2 / 100 + 2 * (1 / 2 ^ 53) + 2 * (1 / 2 ^ 1075)) + 3 * (1 / 2 ^ 1075))"
    by blast
  from r2 BTC_tracked BTC_initial obtain c2 where
    c2: "map_of (cryptos s2) ''BTC'' = Some c2"
      "\<bar>Price c2 - 43250\<bar> \<le> 43250 * (2 / 100 + 2 * (1 / 2 ^ 53) + 2 * (1 / 2 ^ 1075)) + 3 * (1 / 2 ^ 1075)"
    by fastforce
  from s1 c1 s2 c2 rounds_to_nearest_float64 u hub_inv_initial tracked_initial float64_error
  show ?thesis by blast
qed
lemma hub_inv_startup: "hub_inv (startup_state fl)"
  by (simp add: hub_inv_def registered_def startup_state_def initial_state_def)

lemma tracked_startup: "tracked (startup_state fl)"
  by (simp add: tracked_def symbols_def startup_state_def initial_state_def initial_cryptos_def)

lemma AVAX_tracked: "''AVAX'' \<in> set symbols"
  by (simp add: symbols_def)

lemma AVAX_startup: "price_of ''AVAX'' (startup_state fl) = Some (fl (358 / 10))"
  by (simp add: price_of_def startup_state_def initial_state_def initial_cryptos_def to_float_def)

lemma float64_half: "float64 (- (1 / 2)) = - (1 / 2)"
  by (simp add: float64_eval [where k = "- 1"] round_even_def powr_neg_numeral)

lemma float64_two: "float64 (- 2) = - 2"
  by (simp add: float64_eval [where k = 1] round_even_def powr_neg_numeral)

lemma float64_AVAX_change:
  "float64 (5038402083120742 / 2 ^ 47 * (- 5764607523034235 / 2 ^ 58)) = - 3224577333197275 / 2 ^ 52"
  by (simp add: float64_eval [where k = "- 1"] round_even_def powr_neg_numeral)

lemma float64_AVAX_sum:
  "float64 (5038402083120742 / 2 ^ 47 + - 3224577333197275 / 2 ^ 52) = 4937634041458327 / 2 ^ 47"
  by (simp add: float64_eval [where k = 5] round_even_def powr_neg_numeral)

lemma AVAX_tick:
  "float64 (float64 (358 / 10) + float64 (float64 (358 / 10) *
      float64 (float64 (float64 (0 - 1 / 2) * 4) / 100))) = 4937634041458327 / 2 ^ 47"
proof -
  have "float64 (float64 (float64 (0 - 1 / 2) * 4) / 100) = - 5764607523034235 / 2 ^ 58"
    using float64_0_02 by (simp add: float64_half float64_two)
  then show ?thesis
    by (simp only: float64_35_8 float64_AVAX_change float64_AVAX_sum)
qed

text \<open>
  In \<open>float64\<close> the change can exceed 2% of the price. At startup the price of AVAX is the
  double nearest to 35.8. With a draw of 0 the change in percent is -2, the factor the
  double nearest to -0.02, which lies below -0.02, and after the two roundings of the
  product and of the sum the new price is 35.083999999999996: the price has moved by more
  than 2% of itself.
\<close>

theorem price_change_counterexample:
  "price_of ''AVAX'' (startup_state float64) = Some (5038402083120742 / 2 ^ 47) \<and>
   map_sum id (price_of ''AVAX'') (updatePrices float64 zero_draws (startup_state float64)) =
     Inr (Some (4937634041458327 / 2 ^ 47)) \<and>
   5038402083120742 / 2 ^ 47 * (2 / 100) < \<bar>4937634041458327 / 2 ^ 47 - 5038402083120742 / 2 ^ 47 :: real\<bar>"
proof -
  from updatePrices_result [OF hub_inv_startup tracked_startup, where fl = float64 and rnd = zero_draws]
    AVAX_tracked
  obtain s' c where s': "updatePrices float64 zero_draws (startup_state float64) = Inr s'"
    and c: "map_of (cryptos (startup_state float64)) ''AVAX'' = Some c"
    and c': "map_of (cryptos s') ''AVAX'' = Some (updateCrypto float64 0 0 0 c)"
    unfolding zero_draws_def by blast
  from c AVAX_startup [of float64] have p: "Price c = float64 (358 / 10)"
    by (simp add: price_of_def)
  from c' have "price_of ''AVAX'' s' = Some (4937634041458327 / 2 ^ 47)"
    unfolding price_of_def by (simp only: option.map Price_updateCrypto p AVAX_tick)
  with s' have "map_sum id (price_of ''AVAX'') (updatePrices float64 zero_draws (startup_state float64)) =
     Inr (Some (4937634041458327 / 2 ^ 47))"
    by simp
  moreover have "price_of ''AVAX'' (startup_state float64) = Some (5038402083120742 / 2 ^ 47)"
    by (simp only: AVAX_startup float64_35_8)
  moreover have "5038402083120742 / 2 ^ 47 * (2 / 100) <
      \<bar>4937634041458327 / 2 ^ 47 - 5038402083120742 / 2 ^ 47 :: real\<bar>"
    by simp
  ultimately show ?thesis by (intro conjI)
qed

lemma go_round_close: "\<bar>go_round x - x\<bar> \<le> 1 / 2"
proof (cases "x < 0")
  case True
  define f where "f = real_of_int \<lfloor>- x + 1 / 2\<rfloor>"
  have "f \<le> - x + 1 / 2" "- x + 1 / 2 < f + 1"
    unfolding f_def by linarith+
  then have "- (1 / 2) \<le> - f - x" "- f - x \<le> 1 / 2" by linarith+
  then have "\<bar>- f - x\<bar> \<le> 1 / 2" by (intro abs_leI) linarith+
  moreover from True have "go_round x = - f" by (simp only: go_round_def f_def if_True)
  ultimately show ?thesis by simp
next
  case False
  define f where "f = real_of_int \<lfloor>x + 1 / 2\<rfloor>"
  have "f \<le> x + 1 / 2" "x + 1 / 2 < f + 1"
    unfolding f_def by linarith+
  then have "- (1 / 2) \<le> f - x" "f - x \<le> 1 / 2" by linarith+
  then have "\<bar>f - x\<bar> \<le> 1 / 2" by (intro abs_leI) linarith+
  moreover from False have "go_round x = f" by (simp only: go_round_def f_def if_False)
  ultimately show ?thesis by simp
qed

lemma round_to_close: "\<bar>round_to d x - x\<bar> \<le> 1 / (2 * 10 ^ d)"
proof -
  have "\<bar>round_to d x - x\<bar> = \<bar>go_round (x * 10 ^ d) - x * 10 ^ d\<bar> / 10 ^ d"
    by (simp add: round_to_def field_simps abs_divide flip: diff_divide_distrib)
  also have "\<dots> \<le> (1 / 2) / 10 ^ d"
    by (intro divide_right_mono go_round_close) simp
  finally show ?thesis by simp
qed

lemma rounded_hundredths:
  assumes e: "fl_error u eta fl" and u: "u \<le> 1 / 100" and eta: "eta \<le> 1 / 100"
  shows "\<bar>fl (go_round (fl (y * 100)) / 100) - y\<bar> \<le> 1 / 200 + 3 * u * (\<bar>y\<bar> + 1) + 3 * eta"
proof -
  from e have u0: "0 \<le> u" and eta0: "0 \<le> eta" by (simp_all add: fl_error_def)
  define c where "c = fl (y * 100)"
  define j where "j = go_round c"
  define uy where "uy = u * \<bar>y\<bar>"
  have uy0: "0 \<le> uy" using u0 by (simp add: uy_def)
  have ueta: "u * eta \<le> eta / 100" using mult_right_mono [OF u eta0] by simp
  have uu: "u * uy \<le> uy / 100" using mult_right_mono [OF u uy0] by simp
  have y100: "\<bar>y * 100\<bar> = 100 * \<bar>y\<bar>" by (simp add: abs_mult)
  from fl_error_close [OF e, of "y * 100"]
  have c: "\<bar>c - y * 100\<bar> \<le> 100 * uy + eta" unfolding c_def y100 uy_def by simp
  from go_round_close [of c] have j: "\<bar>j - c\<bar> \<le> 1 / 2" by (simp add: j_def)
  from c j have jy: "\<bar>j / 100 - y\<bar> \<le> 1 / 200 + uy + eta / 100"
    by (auto simp: abs_if split: if_splits)
  then have ja: "\<bar>j / 100\<bar> \<le> \<bar>y\<bar> + 1 / 200 + uy + eta / 100"
    by (auto simp: abs_if split: if_splits)
  have "u * \<bar>j / 100\<bar> \<le> u * (\<bar>y\<bar> + 1 / 200 + uy + eta / 100)"
    using ja u0 by (rule mult_left_mono)
  then have uj: "u * \<bar>j / 100\<bar> \<le> uy + u / 200 + uy / 100 + eta / 10000"
    using uu ueta by (simp add: uy_def algebra_simps)
  from fl_error_close [OF e, of "j / 100"] uj
  have "\<bar>fl (j / 100) - j / 100\<bar> \<le> uy + u / 200 + uy / 100 + eta / 10000 + eta" by linarith
  with jy have "\<bar>fl (j / 100) - y\<bar> \<le> 1 / 200 + 3 * uy + 3 * u + 3 * eta"
    using uy0 u0 eta0 by (auto simp: abs_if split: if_splits)
  then show ?thesis by (simp add: j_def c_def uy_def algebra_simps)
qed

lemma rounded_ten_thousandths:
  assumes e: "fl_error u eta fl" and u: "u \<le> 1 / 100" and eta: "eta \<le> 1 / 100"
  shows "\<bar>fl (go_round (fl (y * 10000)) / 10000) - y\<bar>
           \<le> 1 / 20000 + 3 * u * (\<bar>y\<bar> + 1) + 3 * eta"
proof -
  from e have u0: "0 \<le> u" and eta0: "0 \<le> eta" by (simp_all add: fl_error_def)
  define c where "c = fl (y * 10000)"
  define j where "j = go_round c"
  define uy where "uy = u * \<bar>y\<bar>"
  have uy0: "0 \<le> uy" using u0 by (simp add: uy_def)
  have ueta: "u * eta \<le> eta / 100" using mult_right_mono [OF u eta0] by simp
  have uu: "u * uy \<le> uy / 100" using mult_right_mono [OF u uy0] by simp
  have y100: "\<bar>y * 10000\<bar> = 10000 * \<bar>y\<bar>" by (simp add: abs_mult)
  from fl_error_close [OF e, of "y * 10000"]
  have c: "\<bar>c - y * 10000\<bar> \<le> 10000 * uy + eta" unfolding c_def y100 uy_def by simp
  from go_round_close [of c] have j: "\<bar>j - c\<bar> \<le> 1 / 2" by (simp add: j_def)
  from c j have jy: "\<bar>j / 10000 - y\<bar> \<le> 1 / 20000 + uy + eta / 10000"
    by (auto simp: abs_if split: if_splits)
  then have ja: "\<bar>j / 10000\<bar> \<le> \<bar>y\<bar> + 1 / 20000 + uy + eta / 10000"
    by (auto simp: abs_if split: if_splits)
  have "u * \<bar>j / 10000\<bar> \<le> u * (\<bar>y\<bar> + 1 / 20000 + uy + eta / 10000)"
    using ja u0 by (rule mult_left_mono)
  then have uj: "u * \<bar>j / 10000\<bar> \<le> uy + u / 20000 + uy / 100 + eta / 1000000"
    using uu ueta by (simp add: uy_def algebra_simps)
  from fl_error_close [OF e, of "j / 10000"] uj
  have "\<bar>fl (j / 10000) - j / 10000\<bar> \<le> uy + u / 20000 + uy / 100 + eta / 1000000 + eta"
    by linarith
  with jy have "\<bar>fl (j / 10000) - y\<bar> \<le> 1 / 20000 + 3 * uy + 3 * u + 3 * eta"
    using uy0 u0 eta0 by (auto simp: abs_if split: if_splits)
  then show ?thesis by (simp add: j_def c_def uy_def algebra_simps)
qed

lemma rounded_total_within:
  assumes e: "fl_error u eta fl" and u: "u \<le> 1 / 100" and eta: "eta \<le> 1 / 100"
  shows "\<bar>fl (go_round (fl (fl x * 100)) / 100) - x\<bar> \<le> 1 / 200 + 5 * u * (\<bar>x\<bar> + 1) + 5 * eta"
proof -
  from e have u0: "0 \<le> u" and eta0: "0 \<le> eta" by (simp_all add: fl_error_def)
  define a where "a = fl x"
  define ux where "ux = u * \<bar>x\<bar>"
  have ux0: "0 \<le> ux" using u0 by (simp add: ux_def)
  have ueta: "u * eta \<le> eta / 100" using mult_right_mono [OF u eta0] by simp
  have uu: "u * ux \<le> ux / 100" using mult_right_mono [OF u ux0] by simp
  from fl_error_close [OF e, of x] have ax: "\<bar>a - x\<bar> \<le> ux + eta" by (simp add: a_def ux_def)
  then have aa: "\<bar>a\<bar> \<le> \<bar>x\<bar> + ux + eta" by (auto simp: abs_if split: if_splits)
  have "u * \<bar>a\<bar> \<le> u * (\<bar>x\<bar> + ux + eta)" using aa u0 by (rule mult_left_mono)
  then have ua: "u * \<bar>a\<bar> \<le> ux + ux / 100 + eta / 100"
    using uu ueta by (simp add: ux_def algebra_simps)
  from rounded_hundredths [OF e u eta, of a]
  have "\<bar>fl (go_round (fl (a * 100)) / 100) - a\<bar> \<le> 1 / 200 + 3 * (u * \<bar>a\<bar>) + 3 * u + 3 * eta"
    by (simp add: algebra_simps)
  with ua have "\<bar>fl (go_round (fl (a * 100)) / 100) - a\<bar>
      \<le> 1 / 200 + 303 / 100 * ux + 3 * u + 303 / 100 * eta"
    by linarith
  with ax have "\<bar>fl (go_round (fl (a * 100)) / 100) - x\<bar> \<le> 1 / 200 + 5 * ux + 5 * u + 5 * eta"
    using ux0 u0 eta0 by (auto simp: abs_if split: if_splits)
  then show ?thesis by (simp add: a_def ux_def algebra_simps)
qed

text \<open>
  Claim C5, amended. The total of a generated trade is computed from the price and the
  amount drawn, the local variable: their product, times 100, rounded to an integer,
  halves away from zero, and divided by 100, each operation rounded to a double. For an
  arithmetic whose roundings err by at most \<open>u\<close> times the argument plus \<open>eta\<close>, the total
  is within 0.005, plus five such errors, of the price times the amount drawn. The amount
  field is the same drawn amount rounded to 4 decimal places on its own. Every registered
  sink with room receives that one event.
\<close>

theorem trade_total_rounded:
  assumes "hub_inv s" "tracked s" "idx < length symbols"
    "fl_error u eta fl" "u \<le> 1 / 100" "eta \<le> 1 / 100"
  shows "\<exists>s' crypto amount trade.
           generateTrade fl idx f32 r1 r2 nano clock s = Inr s' \<and>
           map_of (cryptos s) (symbols ! idx) = Some crypto \<and>
           amount = trade_amount fl (symbols ! idx) r1 r2 \<and>
           trade = makeTrade fl (symbols ! idx) (if f32 > 1 / 2 then ''sell'' else ''buy'')
                     (Price crypto) amount nano clock \<and>
           Trade_Price trade = Price crypto \<and>
           Trade_Amount trade = fl (go_round (fl (amount * 10000)) / 10000) \<and>
           Trade_Total trade = fl (go_round (fl (fl (Price crypto * amount) * 100)) / 100) \<and>
           \<bar>Trade_Amount trade - amount\<bar> \<le> 1 / 20000 + 3 * u * (\<bar>amount\<bar> + 1) + 3 * eta \<and>
           \<bar>Trade_Total trade - Price crypto * amount\<bar>
             \<le> 1 / 200 + 5 * u * (\<bar>Price crypto * amount\<bar> + 1) + 5 * eta \<and>
           (\<forall>c \<in> registered s.
              queue_of c s' =
                (if length (queue_of c s) < 10
                 then queue_of c s @ [\<lparr>Event = ''trade'', Data = TradeData trade\<rparr>]
                 else queue_of c s))"
proof -
  from assms(2,3) have "symbols ! idx \<in> set (map fst (cryptos s))"
    unfolding tracked_def using nth_mem by blast
  then obtain crypto where cr: "map_of (cryptos s) (symbols ! idx) = Some crypto"
    by (metis map_of_eq_None_iff not_Some_eq set_map)
  define amount where "amount = trade_amount fl (symbols ! idx) r1 r2"
  define trade where "trade = makeTrade fl (symbols ! idx)
     (if f32 > 1 / 2 then ''sell'' else ''buy'') (Price crypto) amount nano clock"
  let ?s1 = "s\<lparr>totalTrades := totalTrades s + 1,
                 totalVolume := fl (totalVolume s + Trade_Total trade)\<rparr>"
  let ?msg = "\<lparr>Event = ''trade'', Data = TradeData trade\<rparr>"
  have g: "generateTrade fl idx f32 r1 r2 nano clock s = broadcast ?msg ?s1"
    using assms(3) cr by (simp add: generateTrade_def Let_def trade_def amount_def)
  from assms(1) have "hub_inv ?s1" by simp
  from broadcast_registered [OF this, of ?msg] obtain s' where
    s': "broadcast ?msg ?s1 = Inr s'"
    and q: "\<forall>c \<in> registered ?s1.
              chans s' ! c =
                (if length (buf (chans ?s1 ! c)) < 10
                 then (chans ?s1 ! c)\<lparr>buf := buf (chans ?s1 ! c) @ [?msg]\<rparr>
                 else chans ?s1 ! c)"
    by blast
  have q': "\<forall>c \<in> registered s. queue_of c s' =
                (if length (queue_of c s) < 10 then queue_of c s @ [?msg] else queue_of c s)"
    using q by (simp add: registered_def queue_of_def)
  have t1: "Trade_Price trade = Price crypto"
    and t2: "Trade_Amount trade = fl (go_round (fl (amount * 10000)) / 10000)"
    and t3: "Trade_Total trade = fl (go_round (fl (fl (Price crypto * amount) * 100)) / 100)"
    by (simp_all add: trade_def makeTrade_def)
  have t4: "\<bar>Trade_Amount trade - amount\<bar> \<le> 1 / 20000 + 3 * u * (\<bar>amount\<bar> + 1) + 3 * eta"
    unfolding t2 using assms(4-6) by (rule rounded_ten_thousandths)
  have t5: "\<bar>Trade_Total trade - Price crypto * amount\<bar>
             \<le> 1 / 200 + 5 * u * (\<bar>Price crypto * amount\<bar> + 1) + 5 * eta"
    unfolding t3 using assms(4-6) by (rule rounded_total_within)
  from g s' cr amount_def trade_def t1 t2 t3 t4 t5 q' show ?thesis by auto
qed

lemma hub_inv_idle_sink: "hub_inv idle_sink"
  by (simp add: hub_inv_def registered_def idle_sink_def sink_ok_def)

lemma tracked_idle_sink: "tracked idle_sink"
  by (simp add: tracked_def symbols_def idle_sink_def startup_state_def initial_state_def
      initial_cryptos_def)

lemma float64_2280: "float64 2280 = 2280"
  by (simp add: float64_eval [where k = 11] round_even_def powr_neg_numeral)

lemma ETH_idle_sink:
  "map_of (cryptos idle_sink) ''ETH'' =
     Some \<lparr>Symbol = ''ETH'', Name = ''Ethereum'', Price = 2280, Change24h = float64 (- (12 / 10)),
       Volume = float64 15200000000, High24h = float64 2350, Low24h = float64 2250\<rparr>"
  by (simp add: idle_sink_def startup_state_def initial_state_def initial_cryptos_def
      to_float_def float64_2280)

lemma ETH_amount: "trade_amount float64 ''ETH'' (1 / 65536) 0 = 5 / 32768"
  by (simp add: trade_amount_def float64_eval [where k = "- 13"] round_even_def powr_neg_numeral)

lemma ETH_amount_field: "float64 (go_round (float64 (5 / 32768 * 10000)) / 10000) = 7378697629483821 / 2 ^ 65"
proof -
  have "float64 (5 / 32768 * 10000) = 3125 / 2048"
    by (simp add: float64_eval [where k = 0] round_even_def powr_neg_numeral)
  moreover have "go_round (3125 / 2048) = 2" by (simp add: go_round_def)
  ultimately show ?thesis using float64_0_0002 by (simp only:)
qed

lemma ETH_total: "float64 (go_round (float64 (float64 (2280 * (5 / 32768)) * 100)) / 100) = 3152519739159347 / 2 ^ 53"
proof -
  have "float64 (2280 * (5 / 32768)) = 1425 / 4096"
    by (simp add: float64_eval [where k = "- 2"] round_even_def powr_neg_numeral)
  moreover have "float64 (1425 / 4096 * 100) = 35625 / 1024"
    by (simp add: float64_eval [where k = 5] round_even_def powr_neg_numeral)
  moreover have "go_round (35625 / 1024) = 35" by (simp add: go_round_def)
  ultimately show ?thesis using float64_0_35 by (simp only:)
qed

lemma ETH_trade:
  "makeTrade float64 ''ETH'' ''buy'' 2280 (5 / 32768) ''1'' ''12:00:00'' =
     \<lparr>Trade_ID = ''T1'', Trade_Symbol = ''ETH'', Trade_Type = ''buy'', Trade_Price = 2280,
      Trade_Amount = 7378697629483821 / 2 ^ 65, Trade_Total = 3152519739159347 / 2 ^ 53,
      Trade_Timestamp = ''12:00:00''\<rparr>"
  unfolding makeTrade_def ETH_amount_field ETH_total by simp

lemma ETH_total_of_field:
  "float64 (go_round (float64 (float64 (2280 * (7378697629483821 / 2 ^ 65)) * 100)) / 100) =
     8286623314361713 / 2 ^ 54"
proof -
  have "float64 (2280 * (7378697629483821 / 2 ^ 65)) = 8214565720323785 / 2 ^ 54"
    by (simp add: float64_eval [where k = "- 2"] round_even_def powr_neg_numeral)
  moreover have "float64 (8214565720323785 / 2 ^ 54 * 100) = 6417629469002957 / 2 ^ 47"
    by (simp add: float64_eval [where k = 5] round_even_def powr_neg_numeral)
  moreover have "go_round (6417629469002957 / 2 ^ 47) = 46" by (simp add: go_round_def)
  moreover have "float64 (46 / 100) = 8286623314361713 / 2 ^ 54"
    by (simp add: float64_eval [where k = "- 2"] round_even_def powr_neg_numeral)
  ultimately show ?thesis by (simp only:)
qed

theorem trade_total_rounded_witness:
  "hub_inv idle_sink \<and> tracked idle_sink \<and> 1 < length symbols \<and>
   fl_error (1 / 2 ^ 53) (1 / 2 ^ 1075) float64 \<and>
   (\<exists>s' crypto amount trade.
      generateTrade float64 1 0 (1 / 65536) 0 ''1'' ''12:00:00'' idle_sink = Inr s' \<and>
      map_of (cryptos idle_sink) (symbols ! 1) = Some crypto \<and>
      amount = trade_amount float64 (symbols ! 1) (1 / 65536) 0 \<and>
      Trade_Total trade = float64 (go_round (float64 (float64 (Price crypto * amount) * 100)) / 100) \<and>
      \<bar>Trade_Total trade - Price crypto * amount\<bar>
        \<le> 1 / 200 + 5 * (1 / 2 ^ 53) * (\<bar>Price crypto * amount\<bar> + 1) + 5 * (1 / 2 ^ 1075) \<and>
      queue_of 0 s' = [\<lparr>Event = ''trade'', Data = TradeData trade\<rparr>])"
proof -
  have l: "1 < length symbols" by (simp add: symbols_def)
  have r: "0 \<in> registered idle_sink" "queue_of 0 idle_sink = []"
    by (simp_all add: registered_def idle_sink_def queue_of_def)
  have small: "(1 :: real) / 2 ^ 53 \<le> 1 / 100" "(1 :: real) / 2 ^ 1075 \<le> 1 / 100" by simp_all
  from trade_total_rounded [OF hub_inv_idle_sink tracked_idle_sink l float64_error small,
      of 0 "1 / 65536" 0 "''1''" "''12:00:00''"]
  obtain s' crypto amount trade where
    t: "generateTrade float64 1 0 (1 / 65536) 0 ''1'' ''12:00:00'' idle_sink = Inr s'"
      "map_of (cryptos idle_sink) (symbols ! 1) = Some crypto"
      "amount = trade_amount float64 (symbols ! 1) (1 / 65536) 0"
      "Trade_Total trade = float64 (go_round (float64 (float64 (Price crypto * amount) * 100)) / 100)"
      "\<bar>Trade_Total trade - Price crypto * amount\<bar>
        \<le> 1 / 200 + 5 * (1 / 2 ^ 53) * (\<bar>Price crypto * amount\<bar> + 1) + 5 * (1 / 2 ^ 1075)"
    and q: "\<forall>c \<in> registered idle_sink.
              queue_of c s' =
                (if length (queue_of c idle_sink) < 10
                 then queue_of c idle_sink @ [\<lparr>Event = ''trade'', Data = TradeData trade\<rparr>]
                 else queue_of c idle_sink)"
    by blast
  from q r have "queue_of 0 s' = [\<lparr>Event = ''trade'', Data = TradeData trade\<rparr>]" by simp
  with t hub_inv_idle_sink tracked_idle_sink l float64_error show ?thesis by blast
qed

text \<open>
  The claim as stated takes the amount from the amount field. For ETH at 2280 and a draw
  of 1 / 65536 the amount drawn is 0.000152587890625; the event carries the amount 0.0002
  and the total 0.35, both as doubles, while 2280 times the amount field rounds to 0.46,
  whether the product is rounded as a real number or by the expression of the source.
\<close>

theorem trade_total_counterexample:
  "map_sum id (queue_of 0)
     (generateTrade float64 1 0 (1 / 65536) 0 ''1'' ''12:00:00'' idle_sink) =
   Inr [\<lparr>Event = ''trade'', Data = TradeData
          \<lparr>Trade_ID = ''T1'', Trade_Symbol = ''ETH'', Trade_Type = ''buy'', Trade_Price = 2280,
           Trade_Amount = 7378697629483821 / 2 ^ 65, Trade_Total = 3152519739159347 / 2 ^ 53,
           Trade_Timestamp = ''12:00:00''\<rparr>\<rparr>] \<and>
   round_to 2 (2280 * (7378697629483821 / 2 ^ 65)) = 46 / 100 \<and>
   Trade_Total (makeTrade float64 ''ETH'' ''buy'' 2280 (7378697629483821 / 2 ^ 65) ''1'' ''12:00:00'') =
     8286623314361713 / 2 ^ 54 \<and>
   (3152519739159347 / 2 ^ 53 :: real) < 36 / 100 \<and> (45 / 100 :: real) < 8286623314361713 / 2 ^ 54"
proof -
  have "generateTrade float64 1 0 (1 / 65536) 0 ''1'' ''12:00:00'' idle_sink =
      broadcast \<lparr>Event = ''trade'', Data = TradeData
          (makeTrade float64 ''ETH'' ''buy'' 2280 (5 / 32768) ''1'' ''12:00:00'')\<rparr>
        (idle_sink\<lparr>totalTrades := totalTrades idle_sink + 1,
           totalVolume := float64 (totalVolume idle_sink + Trade_Total
             (makeTrade float64 ''ETH'' ''buy'' 2280 (5 / 32768) ''1'' ''12:00:00''))\<rparr>)"
    by (simp add: generateTrade_def symbols_def ETH_idle_sink ETH_amount Let_def)
  then have "map_sum id (queue_of 0)
     (generateTrade float64 1 0 (1 / 65536) 0 ''1'' ''12:00:00'' idle_sink) =
   Inr [\<lparr>Event = ''trade'', Data = TradeData
          (makeTrade float64 ''ETH'' ''buy'' 2280 (5 / 32768) ''1'' ''12:00:00'')\<rparr>]"
    by (simp add: idle_sink_def broadcast_def try_send_def queue_of_def)
  then have "map_sum id (queue_of 0)
     (generateTrade float64 1 0 (1 / 65536) 0 ''1'' ''12:00:00'' idle_sink) =
   Inr [\<lparr>Event = ''trade'', Data = TradeData
          \<lparr>Trade_ID = ''T1'', Trade_Symbol = ''ETH'', Trade_Type = ''buy'', Trade_Price = 2280,
           Trade_Amount = 7378697629483821 / 2 ^ 65, Trade_Total = 3152519739159347 / 2 ^ 53,
           Trade_Timestamp = ''12:00:00''\<rparr>\<rparr>]"
    by (simp only: ETH_trade)
  moreover have "round_to 2 (2280 * (7378697629483821 / 2 ^ 65)) = 46 / 100"
    by (simp add: round_to_def go_round_def)
  moreover have "Trade_Total (makeTrade float64 ''ETH'' ''buy'' 2280 (7378697629483821 / 2 ^ 65) ''1'' ''12:00:00'') =
     8286623314361713 / 2 ^ 54"
    unfolding makeTrade_def using ETH_total_of_field by simp
  moreover have "(3152519739159347 / 2 ^ 53 :: real) < 36 / 100"
    "(45 / 100 :: real) < 8286623314361713 / 2 ^ 54" by simp_all
  ultimately show ?thesis by (intro conjI)
qed
section \<open>The transport and the locks\<close>

lemma sendSSE_failure:
  assumes "marshal msg = None"
  shows "sendSSE marshal w msg = w"
  using assms by (simp add: sendSSE_def)

lemma handleSSE_init_failure:
  assumes "marshal \<lparr>Event = ''init'',
      Data = InitData (getCryptoList s) ''Connected to CryptoStream Live''\<rparr> = None"
  shows "written (handleSSE_init marshal s w) = written w"
  using assms by (simp add: handleSSE_init_def sendSSE_def Flush_def)

text \<open>
  Claim C9. If \<^verbatim>\<open>json.Marshal\<close> fails on a message, \<^verbatim>\<open>sendSSE\<close> leaves the writer as it
  was. The turn of the loop of \<^verbatim>\<open>handleSSE\<close> that took the message from the sink's queue
  completes: nothing is written to the stream, the sink stays registered and open, the
  registry and the counter are unchanged, and no other channel is touched.
\<close>

theorem marshal_failure_skips_delivery:
  assumes "marshal msg = None" "hub_inv s" "ch \<in> registered s" "queue_of ch s = msg # rest"
  shows "sendSSE marshal w msg = w \<and>
         (\<exists>s' w'. handleSSE_message marshal ch (s, w) = Some (s', w') \<and>
            written w' = written w \<and> queue_of ch s' = rest \<and>
            clients s' = clients s \<and> activeTraders s' = activeTraders s \<and> hub_inv s' \<and>
            (\<forall>c < length (chans s). c \<noteq> ch \<longrightarrow> chans s' ! c = chans s ! c))"
proof
  from assms(1) show w: "sendSSE marshal w msg = w" by (simp add: sendSSE_def)
  from assms(2,3) have l: "ch < length (chans s)" unfolding hub_inv_def by blast
  let ?h = "(chans s)[ch := (chans s ! ch)\<lparr>buf := rest\<rparr>]"
  from l assms(4) have r: "recv_chan (chans s) ch = Some (msg, ?h)"
    by (simp add: recv_chan_def queue_of_def)
  from hub_inv_recv [OF assms(2) r] have i: "hub_inv (s\<lparr>chans := ?h\<rparr>)" .
  from r w have m: "handleSSE_message marshal ch (s, w) = Some (s\<lparr>chans := ?h\<rparr>, Flush w)"
    by (simp add: handleSSE_message_def)
  have "queue_of ch (s\<lparr>chans := ?h\<rparr>) = rest"
    using l by (simp add: queue_of_def)
  with m i show "\<exists>s' w'. handleSSE_message marshal ch (s, w) = Some (s', w') \<and>
            written w' = written w \<and> queue_of ch s' = rest \<and>
            clients s' = clients s \<and> activeTraders s' = activeTraders s \<and> hub_inv s' \<and>
            (\<forall>c < length (chans s). c \<noteq> ch \<longrightarrow> chans s' ! c = chans s ! c)"
    by (simp add: Flush_def)
qed

theorem marshal_failure_skips_delivery_witness:
  "hub_inv one_sink \<and> 0 \<in> registered one_sink \<and> queue_of 0 one_sink = [sample_message] \<and>
   sendSSE (\<lambda>msg. None) sample_writer sample_message = sample_writer \<and>
   (\<exists>s' w'. handleSSE_message (\<lambda>msg. None) 0 (one_sink, sample_writer) = Some (s', w') \<and>
      written w' = ''event: message'' \<and> queue_of 0 s' = [] \<and> clients s' = [(0, True)])"
proof -
  have r: "0 \<in> registered one_sink" "queue_of 0 one_sink = [sample_message]"
    by (simp_all add: registered_def one_sink_def queue_of_def)
  have n: "(\<lambda>msg :: SSEMessage. None :: string option) sample_message = None" by simp
  from marshal_failure_skips_delivery [OF n hub_inv_one_sink r, of sample_writer]
  obtain s' w' where
    "sendSSE (\<lambda>msg. None) sample_writer sample_message = sample_writer"
    "handleSSE_message (\<lambda>msg. None) 0 (one_sink, sample_writer) = Some (s', w')"
    "written w' = written sample_writer" "queue_of 0 s' = []" "clients s' = clients one_sink"
    by blast
  with r hub_inv_one_sink show ?thesis
    by (simp add: sample_writer_def one_sink_def)
qed

text \<open>
  Claim C7 says that one lock guards every access to the market map, in a price tick and
  in the construction of a snapshot. The code takes no lock for it: at each access to the map
  \<^verbatim>\<open>updatePrices\<close>, \<^verbatim>\<open>getCryptoList\<close>, \<^verbatim>\<open>generateTrade\<close> and \<^verbatim>\<open>handleSSE\<close> hold no mutex,
  while the counters are accessed under \<^verbatim>\<open>statsMu\<close> and the registry under \<^verbatim>\<open>clientsMu\<close>.
  The map as it is between the first and the second turn of the loop of \<^verbatim>\<open>updatePrices\<close>,
  which a concurrent \<^verbatim>\<open>getCryptoList\<close> can read, has the new price of BTC and the old prices
  of the others; the last line is the map after the tick.
\<close>

theorem market_state_unguarded:
  "locks_at cryptos_var [] sync_updatePrices = replicate 13 [] \<and>
   locks_at cryptos_var [] sync_getCryptoList = [[]] \<and>
   locks_at cryptos_var [] sync_generateTrade = [[]] \<and>
   locks_at cryptos_var [] sync_handleSSE = [[]] \<and>
   locks_at stats_vars [] sync_generateTrade = [[statsMu]] \<and>
   locks_at stats_vars [] sync_broadcastStats = [[statsMu]] \<and>
   locks_at clients_var [] sync_broadcast = [[clientsMu]] \<and>
   map_sum id (map (Price \<circ> snd))
     (updatePrices_loop exact (\<lambda>n. 3 / 4) 0 [''BTC''] initial_cryptos) =
     Inr [436825 / 10, 2280, 985 / 10, 52 / 100, 725 / 100, 3580 / 100] \<and>
   map_sum id (map (Price \<circ> snd))
     (updatePrices_loop exact (\<lambda>n. 3 / 4) 0 symbols initial_cryptos) =
     Inr [436825 / 10, 23028 / 10, 99485 / 1000, 5252 / 10000, 73225 / 10000, 36158 / 1000]"
  by (simp add: sync_updatePrices_def sync_getCryptoList_def sync_generateTrade_def
      sync_handleSSE_def sync_broadcastStats_def sync_broadcast_def sync_addClient_def
      sync_removeClient_def symbols_def initial_cryptos_def updateCrypto_def exact_def Let_def
      numeral_eq_Suc)

end
